theory Spec2Isabelle
  imports Main "HOL-Library.AList"
begin

section \<open>The Hacker game engine of a3.py\<close>

text \<open>
  The engine of \<^verbatim>\<open>a3.py\<close>: the classes \<^verbatim>\<open>Entity\<close>, \<^verbatim>\<open>Grid\<close> and \<^verbatim>\<open>Game\<close>.
  A method that mutates \<^verbatim>\<open>self\<close> takes the object and returns the new one; a method that
  can raise returns, with the object, how the call ended. Python's \<^verbatim>\<open>int\<close> is
  \<^typ>\<open>int\<close>.
\<close>

subsection \<open>Errors\<close>

datatype error = ValueError | IndexError | ZeroDivisionError | NotImplementedError

text \<open>How a call of a method without a result ends.\<close>

datatype outcome = Returns | Raises error

subsection \<open>What a3.py takes from a3\_support\<close>

text \<open>
  Modelled from the spec: the class \<^verbatim>\<open>Position\<close> of \<^verbatim>\<open>a3_support\<close>, which is not among
  the sources: an immutable pair of integers, equal and hashed by value, with the accessors
  \<^verbatim>\<open>get_x\<close> and \<^verbatim>\<open>get_y\<close>.
\<close>

datatype Position = Position (get_x: int) (get_y: int)

text \<open>
  Modelled from the spec: the display characters of \<^verbatim>\<open>a3_support\<close>, which is not among
  the sources. The docstrings of the four \<^verbatim>\<open>display\<close> methods give the same characters.
\<close>

definition PLAYER :: string where "PLAYER = ''P''"
definition DESTROYABLE :: string where "DESTROYABLE = ''D''"
definition COLLECTABLE :: string where "COLLECTABLE = ''C''"
definition BLOCKER :: string where "BLOCKER = ''B''"

text \<open>
  Modelled from the spec: \<^verbatim>\<open>ENTITY_TYPES\<close> of \<^verbatim>\<open>a3_support\<close>, the two core kinds
  that the spawn draws from, and \<^verbatim>\<open>MOVE\<close>, the offset \<^verbatim>\<open>(0, -1)\<close> of one tick (the
  docstring of \<^verbatim>\<open>Game.step\<close> gives the same offset).
\<close>

definition ENTITY_TYPES :: "string list" where
  "ENTITY_TYPES = [DESTROYABLE, COLLECTABLE]"

definition MOVE :: "int \<times> int" where "MOVE = (0, - 1)"

text \<open>
  The remaining constants of \<^verbatim>\<open>a3_support\<close> that the engine reads are parameters of
  the model, since neither the sources nor the spec give their values: the direction
  keys, the offset of each direction (the table is indexed by the position of the key in
  \<^verbatim>\<open>DIRECTIONS\<close>) and the two shot types.
\<close>

record Support =
  DIRECTIONS :: "string list"
  ROTATIONS :: "(int \<times> int) list"
  COLLECT :: string
  DESTROY :: string

subsection \<open>Entities\<close>

text \<open>
  The subclasses of \<^verbatim>\<open>Entity\<close> have no fields, so an instance is its class;
  \<^verbatim>\<open>isinstance(entity, K)\<close> is equality with \<open>K\<close>.
\<close>

datatype Entity = Player | Destroyable | Collectable | Blocker

fun display :: "Entity \<Rightarrow> string" where
  "display Player = PLAYER"
| "display Destroyable = DESTROYABLE"
| "display Collectable = COLLECTABLE"
| "display Blocker = BLOCKER"

text \<open>
  The values that \<^verbatim>\<open>_create_entity\<close> compares with \<^verbatim>\<open>==\<close>: a string, or a class
  object (named by the entity it constructs). A string never equals a class object.
\<close>

datatype pyvalue = Str string | Class Entity

text \<open>
  \<^verbatim>\<open>Game._create_entity\<close>. The first test of the source compares \<^verbatim>\<open>display\<close> with the
  class \<^verbatim>\<open>Player\<close>, not with the character \<^verbatim>\<open>PLAYER\<close>; the other three compare it with
  the display characters.
\<close>

definition create_entity :: "pyvalue \<Rightarrow> error + Entity" where
  "create_entity display_arg =
     (if display_arg = Class Player then Inr Player
      else if display_arg = Str DESTROYABLE then Inr Destroyable
      else if display_arg = Str COLLECTABLE then Inr Collectable
      else if display_arg = Str BLOCKER then Inr Blocker
      else Inl NotImplementedError)"

subsection \<open>Grid\<close>

text \<open>
  \<^verbatim>\<open>_entities\<close> is a Python dict, which keeps its keys in insertion order; the order
  decides where the gravity loop of \<^verbatim>\<open>step\<close> breaks. It is an association list:
  \<^verbatim>\<open>d[k] = v\<close> is \<^const>\<open>AList.update\<close> (the value is replaced in place when the key is
  present, the pair is appended otherwise), \<^verbatim>\<open>d.get(k)\<close> is \<^const>\<open>map_of\<close> and
  \<^verbatim>\<open>d.pop(k)\<close> is \<^const>\<open>AList.delete\<close>.
\<close>

type_synonym entities = "(Position \<times> Entity) list"

record Grid =
  grid_size :: int
  grid_entities :: entities

definition Grid_init :: "int \<Rightarrow> Grid" where
  "Grid_init sz = \<lparr>grid_size = sz, grid_entities = []\<rparr>"

definition get_size :: "Grid \<Rightarrow> int" where
  "get_size self = grid_size self"

definition in_bounds :: "Grid \<Rightarrow> Position \<Rightarrow> bool" where
  "in_bounds self position \<longleftrightarrow>
     (0 \<le> get_x position \<and> get_x position < grid_size self) \<and>
     (1 \<le> get_y position \<and> get_y position < grid_size self)"

definition add_entity :: "Grid \<Rightarrow> Position \<Rightarrow> Entity \<Rightarrow> Grid" where
  "add_entity self position entity =
     (if in_bounds self position
      then self\<lparr>grid_entities := AList.update position entity (grid_entities self)\<rparr>
      else self)"

definition get_entities :: "Grid \<Rightarrow> entities" where
  "get_entities self = grid_entities self"

definition get_entity :: "Grid \<Rightarrow> Position \<Rightarrow> Entity option" where
  "get_entity self position = map_of (grid_entities self) position"

definition remove_entity :: "Grid \<Rightarrow> Position \<Rightarrow> Grid" where
  "remove_entity self position =
     (if position \<in> fst ` set (grid_entities self)
      then self\<lparr>grid_entities := AList.delete position (grid_entities self)\<rparr>
      else self)"

definition serialise :: "Grid \<Rightarrow> ((int \<times> int) \<times> string) list" where
  "serialise self =
     map (\<lambda>(position, entity). ((get_x position, get_y position), display entity))
       (grid_entities self)"

definition renew_entities :: "Grid \<Rightarrow> entities \<Rightarrow> Grid" where
  "renew_entities self ents = self\<lparr>grid_entities := ents\<rparr>"

subsection \<open>Game\<close>

record Game =
  game_size :: int
  game_over :: bool
  grid :: Grid
  player_position :: Position
  num_collected :: int
  num_destroyed :: int
  total_shots :: int

definition Game_init :: "int \<Rightarrow> Game" where
  "Game_init sz =
     \<lparr>game_size = sz, game_over = False, grid = Grid_init sz,
      player_position = Position (sz div 2) 0,
      num_collected = 0, num_destroyed = 0, total_shots = 0\<rparr>"

definition get_grid :: "Game \<Rightarrow> Grid" where
  "get_grid self = grid self"

subsubsection \<open>rotate\_grid\<close>

text \<open>\<^verbatim>\<open>DIRECTIONS.index(direction)\<close>: the first position of the key, or no position.\<close>

fun index :: "'a list \<Rightarrow> 'a \<Rightarrow> nat option" where
  "index [] a = None"
| "index (x # xs) a =
     (if x = a then Some 0 else (case index xs a of None \<Rightarrow> None | Some i \<Rightarrow> Some (Suc i)))"

text \<open>
  The loop of \<^verbatim>\<open>rotate_grid\<close> over the items of the old dict, with the dict under
  construction as accumulator. \<^verbatim>\<open>%\<close> raises when the size is 0; otherwise its result
  has the sign of the size, as \<open>mod\<close> on \<^typ>\<open>int\<close> has.
\<close>

fun rotate_loop :: "int \<Rightarrow> int \<Rightarrow> entities \<Rightarrow> entities \<Rightarrow> error + entities" where
  "rotate_loop dx sz [] new_entities = Inr new_entities"
| "rotate_loop dx sz ((current_position, entity) # rest) new_entities =
     (if sz = 0 then Inl ZeroDivisionError
      else let x = (get_x current_position + dx) mod sz
           in rotate_loop dx sz rest
                (AList.update (Position x (get_y current_position)) entity new_entities))"

definition rotate_grid :: "Support \<Rightarrow> string \<Rightarrow> Game \<Rightarrow> outcome \<times> Game" where
  "rotate_grid sp direction self =
     (case index (DIRECTIONS sp) direction of
        None \<Rightarrow> (Raises ValueError, self)
      | Some i \<Rightarrow>
          if length (ROTATIONS sp) \<le> i then (Raises IndexError, self)
          else let next_pos = ROTATIONS sp ! i
               in (case rotate_loop (fst next_pos) (game_size self)
                          (get_entities (grid self)) [] of
                     Inl e \<Rightarrow> (Raises e, self)
                   | Inr new_entities \<Rightarrow>
                       (Returns, self\<lparr>grid := renew_entities (grid self) new_entities\<rparr>)))"

subsubsection \<open>fire\<close>

text \<open>
  The scan of \<^verbatim>\<open>fire\<close> over \<^verbatim>\<open>range(1, self._size)\<close>. A \<^verbatim>\<open>break\<close> returns the state;
  an empty cell, and a cell whose entity is none of the three kinds tested, continue
  with the next row.
\<close>

fun fire_loop :: "Support \<Rightarrow> string \<Rightarrow> int \<Rightarrow> int list \<Rightarrow> Game \<Rightarrow> Game" where
  "fire_loop sp shot_type x [] self = self"
| "fire_loop sp shot_type x (y # ys) self =
     (let position = Position x y in
      case get_entity (grid self) position of
        None \<Rightarrow> fire_loop sp shot_type x ys self
      | Some entity \<Rightarrow>
          if entity = Blocker then self
          else if entity = Destroyable then
            (if shot_type = DESTROY sp
             then self\<lparr>num_destroyed := num_destroyed self + 1,
                       grid := remove_entity (grid self) position\<rparr>
             else self)
          else if entity = Collectable then
            (if shot_type = COLLECT sp
             then self\<lparr>num_collected := num_collected self + 1,
                       grid := remove_entity (grid self) position\<rparr>
             else self)
          else fire_loop sp shot_type x ys self)"

definition fire :: "Support \<Rightarrow> string \<Rightarrow> Game \<Rightarrow> Game" where
  "fire sp shot_type self =
     (let self1 = self\<lparr>total_shots := total_shots self + 1\<rparr>;
          x = get_x (player_position self1)
      in fire_loop sp shot_type x [1 .. game_size self1 - 1] self1)"

definition has_lost :: "Game \<Rightarrow> bool" where
  "has_lost self = game_over self"

subsubsection \<open>The random module\<close>

text \<open>
  The functions of Python's \<^verbatim>\<open>random\<close> module that \<^verbatim>\<open>generate_entities\<close> calls. The
  generator is explicit: a list of raw draws, read as followed by zeros. Each function
  maps its draws onto the results that the library documents for it, so that every
  result the library can give comes from some list, and raises where the library raises:
  \<^verbatim>\<open>randint(a, b)\<close> on an empty range, \<^verbatim>\<open>choices\<close> on an empty population,
  \<^verbatim>\<open>sample\<close> when asked for more elements than the population has or for a negative
  number of them.
\<close>

type_synonym rng = "nat list"

fun draw :: "rng \<Rightarrow> nat \<times> rng" where
  "draw [] = (0, [])"
| "draw (r # rs) = (r, rs)"

definition randint :: "int \<Rightarrow> int \<Rightarrow> rng \<Rightarrow> error + int \<times> rng" where
  "randint a b gen =
     (if b < a then Inl ValueError
      else let (r, gen') = draw gen in Inr (a + int (r mod nat (b - a + 1)), gen'))"

fun choices :: "'a list \<Rightarrow> nat \<Rightarrow> rng \<Rightarrow> error + 'a list \<times> rng" where
  "choices population 0 gen = Inr ([], gen)"
| "choices population (Suc k) gen =
     (if population = [] then Inl IndexError
      else let (r, gen') = draw gen in
        case choices population k gen' of
          Inl e \<Rightarrow> Inl e
        | Inr (xs, gen'') \<Rightarrow> Inr (population ! (r mod length population) # xs, gen''))"

fun sample_loop :: "'a list \<Rightarrow> nat \<Rightarrow> rng \<Rightarrow> 'a list \<times> rng" where
  "sample_loop pool 0 gen = ([], gen)"
| "sample_loop pool (Suc k) gen =
     (if pool = [] then ([], gen)
      else let (r, gen') = draw gen;
               j = r mod length pool;
               (xs, gen'') = sample_loop (take j pool @ drop (Suc j) pool) k gen'
           in (pool ! j # xs, gen''))"

definition sample :: "'a list \<Rightarrow> int \<Rightarrow> rng \<Rightarrow> error + 'a list \<times> rng" where
  "sample population k gen =
     (if k < 0 \<or> int (length population) < k then Inl ValueError
      else Inr (sample_loop population (nat k) gen))"

subsubsection \<open>generate\_entities\<close>

text \<open>
  The first half of \<^verbatim>\<open>generate_entities\<close>, up to the call of \<^verbatim>\<open>random.sample\<close>: the
  columns and the display characters of the entities to add. \<^verbatim>\<open>range(size)\<close> is
  \<open>[0 .. size - 1]\<close>.
\<close>

definition generate_draws :: "Game \<Rightarrow> rng \<Rightarrow> error + int list \<times> string list" where
  "generate_draws self gen =
     (case randint 0 (get_size (get_grid self) - 3) gen of
        Inl e \<Rightarrow> Inl e
      | Inr (entity_count, gen1) \<Rightarrow>
     (case choices ENTITY_TYPES (nat entity_count) gen1 of
        Inl e \<Rightarrow> Inl e
      | Inr (entities, gen2) \<Rightarrow>
     (case randint 1 4 gen2 of
        Inl e \<Rightarrow> Inl e
      | Inr (roll, gen3) \<Rightarrow>
          let blocker = (roll mod 4 = 0);
              total_count = (if blocker then entity_count + 1 else entity_count);
              entities = (if blocker then entities @ [BLOCKER] else entities)
          in (case sample [0 .. get_size (get_grid self) - 1] total_count gen3 of
                Inl e \<Rightarrow> Inl e
              | Inr (entity_index, gen4) \<Rightarrow> Inr (entity_index, entities)))))"

text \<open>The second half: the loop over \<^verbatim>\<open>zip(entity_index, entities)\<close>.\<close>

fun add_loop :: "(int \<times> string) list \<Rightarrow> Game \<Rightarrow> outcome \<times> Game" where
  "add_loop [] self = (Returns, self)"
| "add_loop ((pos, entity) # rest) self =
     (let position = Position pos (get_size (get_grid self) - 1) in
      case create_entity (Str entity) of
        Inl e \<Rightarrow> (Raises e, self)
      | Inr new_entity \<Rightarrow>
          add_loop rest (self\<lparr>grid := add_entity (get_grid self) position new_entity\<rparr>))"

definition generate_entities :: "rng \<Rightarrow> Game \<Rightarrow> outcome \<times> Game" where
  "generate_entities gen self =
     (case generate_draws self gen of
        Inl e \<Rightarrow> (Raises e, self)
      | Inr (entity_index, entities) \<Rightarrow> add_loop (zip entity_index entities) self)"

subsubsection \<open>step\<close>

text \<open>
  The gravity loop of \<^verbatim>\<open>step\<close> over the items of the old dict: the accumulator is the
  dict under construction and the flag \<^verbatim>\<open>_game_over\<close>. The \<^verbatim>\<open>break\<close> returns them as
  they are, without looking at the rest of the items.
\<close>

fun step_loop :: "entities \<Rightarrow> entities \<Rightarrow> bool \<Rightarrow> entities \<times> bool" where
  "step_loop [] new_entities over = (new_entities, over)"
| "step_loop ((position, entity) # rest) new_entities over =
     (let y = get_y position + snd MOVE in
      if y \<ge> 1
      then step_loop rest (AList.update (Position (get_x position) y) entity new_entities) over
      else if entity = Destroyable then (new_entities, True)
      else step_loop rest new_entities over)"

text \<open>The gravity pass: \<^verbatim>\<open>step\<close> up to and including \<^verbatim>\<open>renew_entities\<close>.\<close>

definition gravity :: "Game \<Rightarrow> Game" where
  "gravity self =
     (let (new_entities, over) = step_loop (get_entities (grid self)) [] (game_over self)
      in self\<lparr>game_over := over, grid := renew_entities (grid self) new_entities\<rparr>)"

definition step :: "rng \<Rightarrow> Game \<Rightarrow> outcome \<times> Game" where
  "step gen self = generate_entities gen (gravity self)"

subsection \<open>Sessions\<close>

text \<open>
  The states of a session: a fresh game of some size, then any calls of
  \<^verbatim>\<open>rotate_grid\<close>, \<^verbatim>\<open>step\<close> and \<^verbatim>\<open>fire\<close>, with any arguments and any random draws. A
  call that raises leaves the object as it was at the \<^verbatim>\<open>raise\<close>, and the session may go
  on from there.
\<close>

inductive reachable :: "Support \<Rightarrow> int \<Rightarrow> Game \<Rightarrow> bool" for sp :: Support and sz :: int where
  fresh: "reachable sp sz (Game_init sz)"
| after_rotate: "reachable sp sz self \<Longrightarrow> reachable sp sz (snd (rotate_grid sp direction self))"
| after_step: "reachable sp sz self \<Longrightarrow> reachable sp sz (snd (step gen self))"
| after_fire: "reachable sp sz self \<Longrightarrow> reachable sp sz (fire sp shot_type self)"

text \<open>
  The invariant of the grid that the data model states: the grid has the size of the
  game, the keys of the dict are unique, and every key is in bounds.
\<close>

definition grid_ok :: "Game \<Rightarrow> bool" where
  "grid_ok self \<longleftrightarrow>
     grid_size (grid self) = game_size self \<and>
     distinct (map fst (grid_entities (grid self))) \<and>
     (\<forall>position \<in> set (map fst (grid_entities (grid self))). in_bounds (grid self) position)"

text \<open>The counters of the second game are at least those of the first.\<close>

definition counters_le :: "Game \<Rightarrow> Game \<Rightarrow> bool" where
  "counters_le a b \<longleftrightarrow>
     num_collected a \<le> num_collected b \<and> num_destroyed a \<le> num_destroyed b \<and>
     total_shots a \<le> total_shots b"

text \<open>\<^verbatim>\<open>rotate_grid\<close> called \<open>n\<close> times in a row with one direction, stopping at a raise.\<close>

fun rotate_times :: "Support \<Rightarrow> string \<Rightarrow> nat \<Rightarrow> Game \<Rightarrow> outcome \<times> Game" where
  "rotate_times sp direction 0 self = (Returns, self)"
| "rotate_times sp direction (Suc n) self =
     (case rotate_grid sp direction self of
        (Raises e, self') \<Rightarrow> (Raises e, self')
      | (Returns, self') \<Rightarrow> rotate_times sp direction n self')"

text \<open>The rotation of one item of the dict by the x-offset \<open>dx\<close> in a grid of size \<open>sz\<close>.\<close>

definition rotated :: "int \<Rightarrow> int \<Rightarrow> Position \<times> Entity \<Rightarrow> Position \<times> Entity" where
  "rotated dx sz item =
     (Position ((get_x (fst item) + dx) mod sz) (get_y (fst item)), snd item)"

text \<open>
  Row \<open>y\<close> is the lowest occupied cell of the player's column, among the rows
  \<open>1, \<dots>, size - 1\<close> that \<^verbatim>\<open>fire\<close> scans, and holds \<open>entity\<close>.
\<close>

definition lowest_occupied :: "Game \<Rightarrow> int \<Rightarrow> Entity \<Rightarrow> bool" where
  "lowest_occupied self y entity \<longleftrightarrow>
     1 \<le> y \<and> y < game_size self \<and>
     get_entity (grid self) (Position (get_x (player_position self)) y) = Some entity \<and>
     (\<forall>y' \<in> set [1 .. y - 1].
        get_entity (grid self) (Position (get_x (player_position self)) y') = None)"

text \<open>An item of the dict falls off in this tick: its new row would be below row 1.\<close>

definition falls :: "Position \<times> Entity \<Rightarrow> bool" where
  "falls item \<longleftrightarrow> get_y (fst item) + snd MOVE < 1"

text \<open>An item of the dict one row further down.\<close>

definition moved :: "Position \<times> Entity \<Rightarrow> Position \<times> Entity" where
  "moved item = (Position (get_x (fst item)) (get_y (fst item) + snd MOVE), snd item)"

text \<open>The items of the grid below the top row \<open>size - 1\<close>, in the order of the dict.\<close>

definition below_top :: "Game \<Rightarrow> entities" where
  "below_top self =
     filter (\<lambda>item. get_y (fst item) < grid_size (grid self) - 1) (grid_entities (grid self))"

text \<open>
  The x-offset that \<^verbatim>\<open>rotate_grid\<close> reads for a direction: the first component of the
  entry of \<^verbatim>\<open>ROTATIONS\<close> at the position of the key in \<^verbatim>\<open>DIRECTIONS\<close>.
\<close>

definition x_offset :: "Support \<Rightarrow> string \<Rightarrow> int" where
  "x_offset sp direction =
     (case index (DIRECTIONS sp) direction of
        None \<Rightarrow> 0
      | Some i \<Rightarrow> fst (ROTATIONS sp ! i))"

subsection \<open>Examples\<close>

text \<open>
  An instance of the parameters, for the examples: two direction keys with the x-offsets
  \<open>-1\<close> and \<open>+1\<close>, and two distinct shot types.
\<close>

definition example_support :: Support where
  "example_support =
     \<lparr>DIRECTIONS = [''LEFT'', ''RIGHT''], ROTATIONS = [(- 1, 0), (1, 0)],
      COLLECT = ''COLLECT'', DESTROY = ''DESTROY''\<rparr>"

text \<open>
  A game of size 5 (the player's column is 2) whose grid was filled through
  \<^verbatim>\<open>add_entity\<close>, in this order: a Collectable at \<open>(0, 2)\<close>, a Destroyable at
  \<open>(1, 1)\<close> and a Collectable at \<open>(2, 3)\<close>.
\<close>

definition example_game :: Game where
  "example_game =
     (Game_init 5)\<lparr>grid :=
        add_entity
          (add_entity
             (add_entity (Grid_init 5) (Position 0 2) Collectable)
             (Position 1 1) Destroyable)
          (Position 2 3) Collectable\<rparr>"

section \<open>Dicts and rotation\<close>

lemma update_fresh:
  "k \<notin> fst ` set al \<Longrightarrow> AList.update k v al = al @ [(k, v)]"
  by (induction al) auto

lemma rotate_loop_fresh:
  "es = [] \<or> sz \<noteq> 0 \<Longrightarrow> distinct (map fst (acc @ map (rotated dx sz) es)) \<Longrightarrow>
   rotate_loop dx sz es acc = Inr (acc @ map (rotated dx sz) es)"
proof (induction es arbitrary: acc)
  case Nil
  then show ?case by simp
next
  case (Cons item es)
  obtain p e where item: "item = (p, e)" by (cases item)
  from Cons.prems have sz: "sz \<noteq> 0" by simp
  let ?k = "Position ((get_x p + dx) mod sz) (get_y p)"
  from Cons.prems(2) have fresh: "?k \<notin> fst ` set acc"
    by (auto simp: item rotated_def)
  have upd: "AList.update ?k e acc = acc @ [(?k, e)]"
    using fresh by (rule update_fresh)
  have "rotate_loop dx sz es (acc @ [(?k, e)]) = Inr ((acc @ [(?k, e)]) @ map (rotated dx sz) es)"
    using Cons.prems sz by (intro Cons.IH) (auto simp: item rotated_def)
  then show ?case
    using sz by (simp add: item upd rotated_def Let_def)
qed

lemma shift_mod_inj:
  fixes x1 x2 dx sz :: int
  assumes "0 \<le> x1" "x1 < sz" "0 \<le> x2" "x2 < sz" "(x1 + dx) mod sz = (x2 + dx) mod sz"
  shows "x1 = x2"
proof -
  from assms(5) have "sz dvd (x1 + dx) - (x2 + dx)" by (simp only: mod_eq_dvd_iff)
  then have d: "sz dvd x1 - x2" by simp
  have "\<bar>x1 - x2\<bar> < sz" using assms by linarith
  with d show ?thesis using zdvd_not_zless by force
qed

lemma rotated_keys_distinct:
  assumes "distinct (map fst es)"
    and "\<forall>p \<in> set (map fst es). 0 \<le> get_x p \<and> get_x p < sz"
  shows "distinct (map fst (map (rotated dx sz) es))"
proof -
  let ?f = "\<lambda>p. Position ((get_x p + dx) mod sz) (get_y p)"
  have eq: "map fst (map (rotated dx sz) es) = map ?f (map fst es)"
    by (simp add: rotated_def)
  have "inj_on ?f (set (map fst es))"
  proof (rule inj_onI)
    fix p q assume p: "p \<in> set (map fst es)" and q: "q \<in> set (map fst es)"
      and same: "?f p = ?f q"
    from same have y: "get_y p = get_y q"
      and x: "(get_x p + dx) mod sz = (get_x q + dx) mod sz" by simp_all
    from assms(2) p q have "0 \<le> get_x p" "get_x p < sz" "0 \<le> get_x q" "get_x q < sz"
      by blast+
    then have "get_x p = get_x q" using x by (rule shift_mod_inj)
    with y show "p = q" by (simp add: Position.expand)
  qed
  with assms(1) show ?thesis unfolding eq by (simp only: distinct_map)
qed

lemma rotated_in_bounds:
  assumes "in_bounds g (fst item)"
  shows "in_bounds g (fst (rotated dx (grid_size g) item))"
  using assms by (auto simp: in_bounds_def rotated_def)

lemma index_Some_iff: "(\<exists>i. index xs a = Some i) \<longleftrightarrow> a \<in> set xs"
  by (induction xs) (auto split: option.splits)

lemma index_less: "index xs a = Some i \<Longrightarrow> i < length xs"
  by (induction xs arbitrary: i) (auto split: option.splits if_splits)

lemma index_None_iff: "index xs a = None \<longleftrightarrow> a \<notin> set xs"
  by (induction xs) (auto split: option.splits)

lemma rotate_grid_at:
  assumes ok: "grid_ok self" and i: "index (DIRECTIONS sp) direction = Some i"
    and il: "i < length (ROTATIONS sp)"
  shows "rotate_grid sp direction self =
           (Returns, self\<lparr>grid := (grid self)\<lparr>grid_entities :=
              map (rotated (fst (ROTATIONS sp ! i)) (game_size self))
                (grid_entities (grid self))\<rparr>\<rparr>)"
proof -
  let ?es = "grid_entities (grid self)" and ?sz = "game_size self"
  let ?dx = "fst (ROTATIONS sp ! i)"
  from ok have gs: "grid_size (grid self) = ?sz" and d: "distinct (map fst ?es)"
    and b: "\<forall>p \<in> set (map fst ?es). in_bounds (grid self) p"
    by (simp_all add: grid_ok_def)
  from b gs have xs: "\<forall>p \<in> set (map fst ?es). 0 \<le> get_x p \<and> get_x p < ?sz"
    by (simp add: in_bounds_def)
  have nz: "?es = [] \<or> ?sz \<noteq> 0"
  proof (cases ?es)
    case Nil then show ?thesis by simp
  next
    case (Cons a as)
    then have "fst a \<in> set (map fst ?es)" by simp
    with xs show ?thesis by fastforce
  qed
  have "distinct (map fst ([] @ map (rotated ?dx ?sz) ?es))"
    using rotated_keys_distinct [OF d xs] by simp
  with nz have "rotate_loop ?dx ?sz ?es [] = Inr ([] @ map (rotated ?dx ?sz) ?es)"
    by (rule rotate_loop_fresh)
  then show ?thesis
    using i il
    by (simp add: rotate_grid_def get_entities_def renew_entities_def Let_def)
qed

lemma rotate_grid_on_ok:
  assumes ok: "grid_ok self" and dir: "direction \<in> set (DIRECTIONS sp)"
    and len: "length (DIRECTIONS sp) \<le> length (ROTATIONS sp)"
  shows "rotate_grid sp direction self =
           (Returns, self\<lparr>grid := (grid self)\<lparr>grid_entities :=
              map (rotated (x_offset sp direction) (game_size self))
                (grid_entities (grid self))\<rparr>\<rparr>)"
proof -
  from dir obtain i where i: "index (DIRECTIONS sp) direction = Some i"
    using index_Some_iff by fastforce
  then have il: "i < length (ROTATIONS sp)" using index_less len by fastforce
  show ?thesis using rotate_grid_at [OF ok i il] i by (simp add: x_offset_def)
qed

lemma grid_ok_rotated:
  assumes ok: "grid_ok self"
  shows "grid_ok (self\<lparr>grid := (grid self)\<lparr>grid_entities :=
              map (rotated dx (game_size self)) (grid_entities (grid self))\<rparr>\<rparr>)"
proof -
  let ?es = "grid_entities (grid self)" and ?sz = "game_size self"
  from ok have gs: "grid_size (grid self) = ?sz" and d: "distinct (map fst ?es)"
    and b: "\<forall>p \<in> set (map fst ?es). in_bounds (grid self) p"
    by (simp_all add: grid_ok_def)
  from b gs have xs: "\<forall>p \<in> set (map fst ?es). 0 \<le> get_x p \<and> get_x p < ?sz"
    by (simp add: in_bounds_def)
  have d': "distinct (map fst (map (rotated dx ?sz) ?es))"
    using rotated_keys_distinct [OF d xs] .
  have b': "\<forall>item \<in> set ?es. in_bounds (grid self) (fst (rotated dx ?sz item))"
    using b rotated_in_bounds [of "grid self" _ dx] gs by auto
  show ?thesis
    using gs d' b' by (auto simp: grid_ok_def in_bounds_def)
qed

lemma rotated_rotated:
  "rotated a sz (rotated b sz item) = rotated (b + a) sz item"
  by (simp add: rotated_def mod_add_left_eq add.assoc)

lemma rotated_full_turn:
  assumes ok: "grid_ok self"
  shows "map (rotated (game_size self * k) (game_size self)) (grid_entities (grid self))
           = grid_entities (grid self)"
proof -
  have "rotated (game_size self * k) (game_size self) item = item"
    if "item \<in> set (grid_entities (grid self))" for item
  proof -
    from that ok have "in_bounds (grid self) (fst item)" "grid_size (grid self) = game_size self"
      by (auto simp: grid_ok_def)
    then have "0 \<le> get_x (fst item)" "get_x (fst item) < game_size self"
      by (simp_all add: in_bounds_def)
    then show ?thesis by (simp add: rotated_def)
  qed
  then show ?thesis by (simp add: map_idI)
qed

lemma rotate_times_on_ok:
  assumes dir: "direction \<in> set (DIRECTIONS sp)"
    and len: "length (DIRECTIONS sp) \<le> length (ROTATIONS sp)"
  shows "grid_ok self \<Longrightarrow>
         rotate_times sp direction n self =
           (Returns, self\<lparr>grid := (grid self)\<lparr>grid_entities :=
              map (rotated (int n * x_offset sp direction) (game_size self))
                (grid_entities (grid self))\<rparr>\<rparr>)"
proof (induction n arbitrary: self)
  case 0
  have "map (rotated 0 (game_size self)) (grid_entities (grid self))
          = grid_entities (grid self)"
    using rotated_full_turn [OF "0.prems", of 0] by simp
  then show ?case by simp
next
  case (Suc n)
  let ?dx = "x_offset sp direction"
  let ?self1 = "self\<lparr>grid := (grid self)\<lparr>grid_entities :=
              map (rotated ?dx (game_size self)) (grid_entities (grid self))\<rparr>\<rparr>"
  have r: "rotate_grid sp direction self = (Returns, ?self1)"
    using Suc.prems dir len by (rule rotate_grid_on_ok)
  have ok1: "grid_ok ?self1" using Suc.prems by (rule grid_ok_rotated)
  have "rotate_times sp direction n ?self1 =
          (Returns, ?self1\<lparr>grid := (grid ?self1)\<lparr>grid_entities :=
              map (rotated (int n * ?dx) (game_size ?self1)) (grid_entities (grid ?self1))\<rparr>\<rparr>)"
    using ok1 by (rule Suc.IH)
  then show ?case
    by (simp add: r rotated_rotated o_def algebra_simps)
qed

lemma rotate_closure:
  assumes ok: "grid_ok self" and dir: "direction \<in> set (DIRECTIONS sp)"
    and len: "length (DIRECTIONS sp) \<le> length (ROTATIONS sp)"
  shows "rotate_times sp direction (nat (game_size self)) self = (Returns, self)"
proof (cases "0 \<le> game_size self")
  case True
  have "rotate_times sp direction (nat (game_size self)) self =
           (Returns, self\<lparr>grid := (grid self)\<lparr>grid_entities :=
              map (rotated (int (nat (game_size self)) * x_offset sp direction) (game_size self))
                (grid_entities (grid self))\<rparr>\<rparr>)"
    using dir len ok by (rule rotate_times_on_ok)
  moreover have "map (rotated (game_size self * x_offset sp direction) (game_size self))
       (grid_entities (grid self)) = grid_entities (grid self)"
    using ok by (rule rotated_full_turn)
  ultimately show ?thesis using True by simp
next
  case False
  then show ?thesis by simp
qed

section \<open>The gravity pass\<close>

lemma moved_keys_distinct:
  assumes "distinct (map fst es)"
  shows "distinct (map fst (map moved es))"
proof -
  have "map fst (map moved es) = map (\<lambda>p. Position (get_x p) (get_y p + snd MOVE)) (map fst es)"
    by (simp add: moved_def)
  moreover have "inj_on (\<lambda>p. Position (get_x p) (get_y p + snd MOVE)) (set (map fst es))"
    by (rule inj_onI) (simp add: Position.expand)
  ultimately show ?thesis using assms by (simp only: distinct_map)
qed

lemma step_loop_no_loss:
  "\<forall>item \<in> set es. falls item \<longrightarrow> snd item \<noteq> Destroyable \<Longrightarrow>
   distinct (map fst (acc @ map moved (filter (\<lambda>item. \<not> falls item) es))) \<Longrightarrow>
   step_loop es acc over = (acc @ map moved (filter (\<lambda>item. \<not> falls item) es), over)"
proof (induction es arbitrary: acc)
  case Nil
  then show ?case by simp
next
  case (Cons item es)
  obtain p e where item: "item = (p, e)" by (cases item)
  show ?case
  proof (cases "falls item")
    case True
    with Cons.prems have "e \<noteq> Destroyable" by (simp add: item)
    moreover have "step_loop es acc over = (acc @ map moved (filter (\<lambda>item. \<not> falls item) es), over)"
      using Cons.prems True by (intro Cons.IH) auto
    ultimately show ?thesis using True by (simp add: item falls_def Let_def)
  next
    case False
    let ?k = "Position (get_x p) (get_y p + snd MOVE)"
    from Cons.prems(2) False have "?k \<notin> fst ` set acc"
      by (auto simp: item moved_def)
    then have upd: "AList.update ?k e acc = acc @ [(?k, e)]" by (rule update_fresh)
    have "step_loop es (acc @ [(?k, e)]) over
            = ((acc @ [(?k, e)]) @ map moved (filter (\<lambda>item. \<not> falls item) es), over)"
      using Cons.prems False by (intro Cons.IH) (auto simp: item moved_def)
    then show ?thesis using False by (simp add: item falls_def upd moved_def Let_def)
  qed
qed

lemma step_loop_loss:
  "\<forall>item \<in> set pre. falls item \<longrightarrow> snd item \<noteq> Destroyable \<Longrightarrow>
   falls (p, Destroyable) \<Longrightarrow>
   distinct (map fst (acc @ map moved (filter (\<lambda>item. \<not> falls item) pre))) \<Longrightarrow>
   step_loop (pre @ (p, Destroyable) # post) acc over
     = (acc @ map moved (filter (\<lambda>item. \<not> falls item) pre), True)"
proof (induction pre arbitrary: acc)
  case Nil
  then show ?case by (simp add: falls_def Let_def)
next
  case (Cons item pre)
  obtain q e where item: "item = (q, e)" by (cases item)
  show ?case
  proof (cases "falls item")
    case True
    with Cons.prems have "e \<noteq> Destroyable" by (simp add: item)
    moreover have "step_loop (pre @ (p, Destroyable) # post) acc over
        = (acc @ map moved (filter (\<lambda>item. \<not> falls item) pre), True)"
      using Cons.prems True by (intro Cons.IH) auto
    ultimately show ?thesis using True by (simp add: item falls_def Let_def)
  next
    case False
    let ?k = "Position (get_x q) (get_y q + snd MOVE)"
    from Cons.prems(3) False have "?k \<notin> fst ` set acc"
      by (auto simp: item moved_def)
    then have upd: "AList.update ?k e acc = acc @ [(?k, e)]" by (rule update_fresh)
    have "step_loop (pre @ (p, Destroyable) # post) (acc @ [(?k, e)]) over
            = ((acc @ [(?k, e)]) @ map moved (filter (\<lambda>item. \<not> falls item) pre), True)"
      using Cons.prems False by (intro Cons.IH) (auto simp: item moved_def)
    then show ?thesis using False by (simp add: item falls_def upd moved_def Let_def)
  qed
qed

lemma subset_via_insert:
  "S \<subseteq> U \<union> M \<Longrightarrow> U = {k} \<union> A \<Longrightarrow> k \<in> M' \<Longrightarrow> M \<subseteq> M' \<Longrightarrow> S \<subseteq> A \<union> M'"
  by blast

lemma step_loop_keys:
  "set (map fst (fst (step_loop es acc over)))
     \<subseteq> set (map fst acc) \<union> set (map fst (map moved (filter (\<lambda>item. \<not> falls item) es)))"
proof (induction es arbitrary: acc)
  case Nil
  then show ?case by simp
next
  case (Cons item es)
  obtain p e where item: "item = (p, e)" by (cases item)
  let ?M = "\<lambda>es. set (map fst (map moved (filter (\<lambda>item. \<not> falls item) es)))"
  have mono: "?M es \<subseteq> ?M (item # es)" by auto
  show ?case
  proof (cases "falls item")
    case True
    have "set (map fst (fst (step_loop es acc over))) \<subseteq> set (map fst acc) \<union> ?M es"
      by (rule Cons.IH)
    with mono have sub: "set (map fst (fst (step_loop es acc over)))
        \<subseteq> set (map fst acc) \<union> ?M (item # es)" by blast
    have "step_loop (item # es) acc over = step_loop es acc over
        \<or> step_loop (item # es) acc over = (acc, True)"
      using True by (simp add: item falls_def Let_def)
    then show ?thesis
    proof
      assume "step_loop (item # es) acc over = step_loop es acc over"
      with sub show ?thesis by simp
    next
      assume "step_loop (item # es) acc over = (acc, True)"
      then show ?thesis by simp
    qed
  next
    case False
    let ?k = "Position (get_x p) (get_y p + snd MOVE)"
    have k: "?k = fst (moved item)" by (simp add: item moved_def)
    have "set (map fst (fst (step_loop es (AList.update ?k e acc) over)))
       \<subseteq> set (map fst (AList.update ?k e acc)) \<union> ?M es"
      by (rule Cons.IH)
    moreover have "set (map fst (AList.update ?k e acc)) = {?k} \<union> set (map fst acc)"
      using dom_update [of ?k e acc] by simp
    moreover have "?k \<in> ?M (item # es)" using False k by simp
    ultimately have "set (map fst (fst (step_loop es (AList.update ?k e acc) over)))
        \<subseteq> set (map fst acc) \<union> ?M (item # es)" using mono by (rule subset_via_insert)
    moreover have "step_loop (item # es) acc over = step_loop es (AList.update ?k e acc) over"
      using False by (simp add: item falls_def Let_def)
    ultimately show ?thesis by simp
  qed
qed

lemma step_loop_distinct:
  "distinct (map fst acc) \<Longrightarrow> distinct (map fst (fst (step_loop es acc over)))"
proof (induction es arbitrary: acc)
  case Nil
  then show ?case by simp
next
  case (Cons item es)
  obtain p e where item: "item = (p, e)" by (cases item)
  show ?case using Cons.prems
    by (auto simp: item Let_def intro!: Cons.IH distinct_update)
qed

lemma gravity_fields:
  "game_size (gravity self) = game_size self"
  "grid_size (grid (gravity self)) = grid_size (grid self)"
  "player_position (gravity self) = player_position self"
  "num_collected (gravity self) = num_collected self"
  "num_destroyed (gravity self) = num_destroyed self"
  "total_shots (gravity self) = total_shots self"
  by (simp_all add: gravity_def renew_entities_def split: prod.splits)

lemma gravity_entities:
  "grid_entities (grid (gravity self))
     = fst (step_loop (grid_entities (grid self)) [] (game_over self))"
  by (simp add: gravity_def renew_entities_def get_entities_def split: prod.splits)

lemma gravity_keys:
  assumes ok: "grid_ok self" and p: "p \<in> set (map fst (grid_entities (grid (gravity self))))"
  shows "0 \<le> get_x p \<and> get_x p < game_size self \<and> 1 \<le> get_y p \<and> get_y p < game_size self - 1"
proof -
  from p step_loop_keys [of "grid_entities (grid self)" "[]" "game_over self"]
  have "p \<in> set (map fst (map moved (filter (\<lambda>item. \<not> falls item) (grid_entities (grid self)))))"
    by (auto simp: gravity_entities)
  then obtain item where item: "item \<in> set (grid_entities (grid self))" "\<not> falls item"
    and pm: "p = fst (moved item)"
    by auto
  from ok item(1) have "in_bounds (grid self) (fst item)" "grid_size (grid self) = game_size self"
    by (auto simp: grid_ok_def)
  with item(2) show ?thesis
    by (simp add: pm moved_def falls_def in_bounds_def MOVE_def)
qed

lemma gravity_ok:
  assumes ok: "grid_ok self"
  shows "grid_ok (gravity self)"
proof -
  have "distinct (map fst (grid_entities (grid (gravity self))))"
    by (simp add: gravity_entities step_loop_distinct)
  moreover have "grid_size (grid (gravity self)) = game_size (gravity self)"
    using ok by (simp add: gravity_fields grid_ok_def)
  moreover have "in_bounds (grid (gravity self)) p"
    if "p \<in> set (map fst (grid_entities (grid (gravity self))))" for p
  proof -
    from gravity_keys [OF ok that] have "0 \<le> get_x p" "get_x p < game_size self"
      "1 \<le> get_y p" "get_y p < game_size self" by simp_all
    moreover from ok have "grid_size (grid self) = game_size self" by (simp add: grid_ok_def)
    ultimately show ?thesis by (simp add: in_bounds_def gravity_fields)
  qed
  ultimately show ?thesis by (simp add: grid_ok_def)
qed

lemma gravity_of_loop:
  "step_loop (grid_entities (grid self)) [] (game_over self) = (new_entities, over) \<Longrightarrow>
   gravity self = self\<lparr>game_over := over, grid := (grid self)\<lparr>grid_entities := new_entities\<rparr>\<rparr>"
  by (simp add: gravity_def get_entities_def renew_entities_def)

section \<open>The random draws\<close>

lemma randint_range:
  "randint a b gen = Inr (v, gen') \<Longrightarrow> a \<le> v \<and> v \<le> b"
proof -
  assume r: "randint a b gen = Inr (v, gen')"
  then have ab: "a \<le> b" by (auto simp: randint_def split: if_splits)
  obtain r0 g0 where d: "draw gen = (r0, g0)" by (cases "draw gen")
  from r ab d have v: "v = a + int (r0 mod nat (b - a + 1))"
    by (simp add: randint_def)
  have "r0 mod nat (b - a + 1) < nat (b - a + 1)" using ab by simp
  with v ab show ?thesis by linarith
qed

lemma randint_succeeds:
  "a \<le> b \<Longrightarrow> \<exists>v gen'. randint a b gen = Inr (v, gen')"
  by (auto simp: randint_def split: prod.splits)

lemma randint_raises:
  "b < a \<Longrightarrow> randint a b gen = Inl ValueError"
  by (simp add: randint_def)

lemma choices_result:
  "choices population k gen = Inr (xs, gen') \<Longrightarrow> set xs \<subseteq> set population \<and> length xs = k"
proof (induction k arbitrary: gen xs gen')
  case 0
  then show ?case by simp
next
  case (Suc k)
  from Suc.prems have ne: "population \<noteq> []" by (auto split: if_splits)
  obtain r g1 where d: "draw gen = (r, g1)" by (cases "draw gen")
  from Suc.prems ne d obtain ys g2 where c: "choices population k g1 = Inr (ys, g2)"
    and xs: "xs = population ! (r mod length population) # ys"
    by (auto split: sum.splits prod.splits)
  from Suc.IH [OF c] have "set ys \<subseteq> set population" "length ys = k" by simp_all
  moreover have "population ! (r mod length population) \<in> set population"
    using ne by simp
  ultimately show ?case by (simp add: xs)
qed

lemma choices_succeeds:
  "population \<noteq> [] \<Longrightarrow> \<exists>xs gen'. choices population k gen = Inr (xs, gen')"
proof (induction k arbitrary: gen)
  case 0
  then show ?case by simp
next
  case (Suc k)
  obtain r g1 where d: "draw gen = (r, g1)" by (cases "draw gen")
  from Suc.IH [OF Suc.prems, of g1] obtain ys g2 where "choices population k g1 = Inr (ys, g2)"
    by blast
  then show ?case using Suc.prems d by simp
qed

lemma remove_nth_set:
  assumes "distinct pool" "j < length pool"
  shows "distinct (take j pool @ drop (Suc j) pool)"
    and "set (take j pool @ drop (Suc j) pool) = set pool - {pool ! j}"
proof -
  have split: "pool = take j pool @ pool ! j # drop (Suc j) pool"
    using assms(2) by (rule id_take_nth_drop)
  with assms(1) have d: "distinct (take j pool @ pool ! j # drop (Suc j) pool)" by simp
  then show "distinct (take j pool @ drop (Suc j) pool)" by simp
  from d have "pool ! j \<notin> set (take j pool @ drop (Suc j) pool)" by simp
  moreover have "set pool = insert (pool ! j) (set (take j pool @ drop (Suc j) pool))"
    by (subst split) simp
  ultimately show "set (take j pool @ drop (Suc j) pool) = set pool - {pool ! j}" by blast
qed

lemma sample_loop_result:
  "distinct pool \<Longrightarrow> k \<le> length pool \<Longrightarrow>
   distinct (fst (sample_loop pool k gen)) \<and> set (fst (sample_loop pool k gen)) \<subseteq> set pool
   \<and> length (fst (sample_loop pool k gen)) = k"
proof (induction k arbitrary: pool gen)
  case 0
  then show ?case by simp
next
  case (Suc k)
  from Suc.prems have ne: "pool \<noteq> []" by auto
  obtain r g1 where d: "draw gen = (r, g1)" by (cases "draw gen")
  let ?j = "r mod length pool"
  let ?rest = "take ?j pool @ drop (Suc ?j) pool"
  have j: "?j < length pool" using ne by simp
  have dr: "distinct ?rest" and sr: "set ?rest = set pool - {pool ! ?j}"
    using remove_nth_set [OF Suc.prems(1) j] by simp_all
  have lr: "k \<le> length ?rest" using Suc.prems(2) j by simp
  obtain xs g2 where s: "sample_loop ?rest k g1 = (xs, g2)" by (cases "sample_loop ?rest k g1")
  from Suc.IH [OF dr lr, of g1] s
  have "distinct xs" "set xs \<subseteq> set ?rest" "length xs = k" by simp_all
  moreover have "fst (sample_loop pool (Suc k) gen) = pool ! ?j # xs"
    using ne d s by (simp add: Let_def)
  moreover have "pool ! ?j \<in> set pool" using j by simp
  ultimately show ?case using sr by auto
qed

lemma sample_result:
  assumes "sample population k gen = Inr (xs, gen')" "distinct population"
  shows "distinct xs \<and> set xs \<subseteq> set population \<and> int (length xs) = k"
proof -
  from assms(1) have k: "0 \<le> k" "k \<le> int (length population)"
    and xs: "xs = fst (sample_loop population (nat k) gen)"
    by (auto simp: sample_def split: if_splits)
  from k have "nat k \<le> length population" by simp
  from sample_loop_result [OF assms(2) this, of gen] xs k show ?thesis by simp
qed

lemma sample_succeeds:
  "0 \<le> k \<Longrightarrow> k \<le> int (length population) \<Longrightarrow> \<exists>xs gen'. sample population k gen = Inr (xs, gen')"
  by (cases "sample_loop population (nat k) gen") (simp add: sample_def)

lemma generate_draws_result:
  assumes "generate_draws self gen = Inr (entity_index, entities)"
  shows "distinct entity_index
       \<and> set entity_index \<subseteq> {0 ..< grid_size (grid self)}
       \<and> set entities \<subseteq> {DESTROYABLE, COLLECTABLE, BLOCKER}
       \<and> length entity_index = length entities"
proof -
  let ?sz = "grid_size (grid self)"
  from assms obtain entity_count gen1 where r1: "randint 0 (?sz - 3) gen = Inr (entity_count, gen1)"
    by (auto simp: generate_draws_def get_size_def get_grid_def split: sum.splits)
  from assms r1 obtain es gen2 where c: "choices ENTITY_TYPES (nat entity_count) gen1 = Inr (es, gen2)"
    by (auto simp: generate_draws_def get_size_def get_grid_def split: sum.splits)
  from assms r1 c obtain roll gen3 where r2: "randint 1 4 gen2 = Inr (roll, gen3)"
    by (auto simp: generate_draws_def get_size_def get_grid_def split: sum.splits)
  let ?blocker = "roll mod 4 = 0"
  let ?total = "if ?blocker then entity_count + 1 else entity_count"
  let ?entities = "if ?blocker then es @ [BLOCKER] else es"
  from assms r1 c r2 obtain gen4 where s: "sample [0 .. ?sz - 1] ?total gen3 = Inr (entity_index, gen4)"
    and e: "entities = ?entities"
    by (auto simp: generate_draws_def get_size_def get_grid_def Let_def split: sum.splits)
  from randint_range [OF r1] have ec: "0 \<le> entity_count" by simp
  from choices_result [OF c] ec have es: "set es \<subseteq> set ENTITY_TYPES" "int (length es) = entity_count"
    by simp_all
  have "distinct [0 .. ?sz - 1]" by simp
  from sample_result [OF s this]
  have "distinct entity_index" "set entity_index \<subseteq> set [0 .. ?sz - 1]" "int (length entity_index) = ?total"
    by simp_all
  moreover have "int (length entities) = ?total" using es(2) e by simp
  moreover have "set entities \<subseteq> {DESTROYABLE, COLLECTABLE, BLOCKER}"
    using es(1) e by (auto simp: ENTITY_TYPES_def)
  ultimately show ?thesis by auto
qed

lemma generate_draws_succeeds:
  assumes "3 \<le> grid_size (grid self)"
  shows "\<exists>entity_index entities. generate_draws self gen = Inr (entity_index, entities)"
proof -
  let ?sz = "grid_size (grid self)"
  from assms obtain entity_count gen1 where r1: "randint 0 (?sz - 3) gen = Inr (entity_count, gen1)"
    using randint_succeeds [of 0 "?sz - 3" gen] by auto
  have "ENTITY_TYPES \<noteq> []" by (simp add: ENTITY_TYPES_def)
  then obtain es gen2 where c: "choices ENTITY_TYPES (nat entity_count) gen1 = Inr (es, gen2)"
    using choices_succeeds by blast
  obtain roll gen3 where r2: "randint 1 4 gen2 = Inr (roll, gen3)"
    using randint_succeeds [of 1 4 gen2] by auto
  let ?total = "if roll mod 4 = 0 then entity_count + 1 else entity_count"
  from randint_range [OF r1] have "0 \<le> ?total" "?total \<le> int (length [0 .. ?sz - 1])"
    by auto
  then obtain xs gen4 where s: "sample [0 .. ?sz - 1] ?total gen3 = Inr (xs, gen4)"
    using sample_succeeds by blast
  show ?thesis
    using r1 c r2 s by (auto simp: generate_draws_def get_size_def get_grid_def Let_def)
qed

lemma generate_draws_raises:
  assumes "grid_size (grid self) < 3"
  shows "generate_draws self gen = Inl ValueError"
  using assms by (simp add: generate_draws_def get_size_def get_grid_def randint_raises)

lemma generate_draws_size:
  "generate_draws self gen = Inr r \<Longrightarrow> 3 \<le> grid_size (grid self)"
proof -
  assume a: "generate_draws self gen = Inr r"
  then obtain v g where "randint 0 (grid_size (grid self) - 3) gen = Inr (v, g)"
    by (auto simp: generate_draws_def get_size_def get_grid_def split: sum.splits)
  from randint_range [OF this] show ?thesis by simp
qed

section \<open>The spawn loop\<close>

lemma create_entity_kind:
  "kind \<in> {DESTROYABLE, COLLECTABLE, BLOCKER} \<Longrightarrow> \<exists>e. create_entity (Str kind) = Inr e"
  by (auto simp: create_entity_def)

lemma add_entity_size: "grid_size (add_entity g p e) = grid_size g"
  by (simp add: add_entity_def)

lemma add_entity_keys:
  "set (map fst (grid_entities (add_entity g p e))) \<subseteq> insert p (set (map fst (grid_entities g)))"
  using dom_update [of p e "grid_entities g"] by (auto simp: add_entity_def)

lemma add_entity_ok:
  assumes "grid_ok self"
  shows "grid_ok (self\<lparr>grid := add_entity (grid self) p e\<rparr>)"
proof (cases "in_bounds (grid self) p")
  case True
  have "set (map fst (AList.update p e (grid_entities (grid self))))
          = {p} \<union> set (map fst (grid_entities (grid self)))"
    using dom_update [of p e "grid_entities (grid self)"] by simp
  with assms True show ?thesis
    by (auto simp: grid_ok_def add_entity_def distinct_update in_bounds_def)
next
  case False
  with assms show ?thesis by (simp add: grid_ok_def add_entity_def)
qed

lemma add_loop_fields:
  "game_size (snd (add_loop zs self)) = game_size self"
  "game_over (snd (add_loop zs self)) = game_over self"
  "player_position (snd (add_loop zs self)) = player_position self"
  "num_collected (snd (add_loop zs self)) = num_collected self"
  "num_destroyed (snd (add_loop zs self)) = num_destroyed self"
  "total_shots (snd (add_loop zs self)) = total_shots self"
  "grid_size (grid (snd (add_loop zs self))) = grid_size (grid self)"
  by (induction zs self rule: add_loop.induct;
      simp add: Let_def get_grid_def add_entity_size split: sum.splits)+

lemma add_loop_ok: "grid_ok self \<Longrightarrow> grid_ok (snd (add_loop zs self))"
  by (induction zs self rule: add_loop.induct)
     (auto simp: Let_def get_grid_def add_entity_ok split: sum.splits)

lemma add_loop_keys:
  "set (map fst (grid_entities (grid (snd (add_loop zs self)))))
     \<subseteq> set (map fst (grid_entities (grid self)))
       \<union> (\<lambda>x. Position x (grid_size (grid self) - 1)) ` set (map fst zs)"
proof (induction zs arbitrary: self)
  case Nil
  then show ?case by simp
next
  case (Cons z zs)
  obtain pos kind where z: "z = (pos, kind)" by (cases z)
  show ?case
  proof (cases "create_entity (Str kind)")
    case (Inl err)
    then show ?thesis by (auto simp: z)
  next
    case (Inr e)
    let ?p = "Position pos (grid_size (grid self) - 1)"
    let ?self1 = "self\<lparr>grid := add_entity (grid self) ?p e\<rparr>"
    have step: "add_loop (z # zs) self = add_loop zs ?self1"
      using Inr by (simp add: z get_size_def get_grid_def)
    have "set (map fst (grid_entities (grid (snd (add_loop zs ?self1)))))
            \<subseteq> set (map fst (grid_entities (grid ?self1)))
              \<union> (\<lambda>x. Position x (grid_size (grid ?self1) - 1)) ` set (map fst zs)"
      by (rule Cons.IH)
    moreover have "set (map fst (grid_entities (grid ?self1)))
            \<subseteq> insert ?p (set (map fst (grid_entities (grid self))))"
      using add_entity_keys [of "grid self" ?p e] by simp
    ultimately show ?thesis
      unfolding step by (auto simp: z add_entity_size)
  qed
qed

lemma add_loop_get_other:
  "p \<notin> (\<lambda>x. Position x (grid_size (grid self) - 1)) ` set (map fst zs) \<Longrightarrow>
   get_entity (grid (snd (add_loop zs self))) p = get_entity (grid self) p"
proof (induction zs arbitrary: self)
  case Nil
  then show ?case by simp
next
  case (Cons z zs)
  obtain pos kind where z: "z = (pos, kind)" by (cases z)
  show ?case
  proof (cases "create_entity (Str kind)")
    case (Inl err)
    then show ?thesis by (simp add: z)
  next
    case (Inr e)
    let ?q = "Position pos (grid_size (grid self) - 1)"
    let ?self1 = "self\<lparr>grid := add_entity (grid self) ?q e\<rparr>"
    have step: "add_loop (z # zs) self = add_loop zs ?self1"
      using Inr by (simp add: z get_size_def get_grid_def)
    from Cons.prems have pq: "p \<noteq> ?q"
      and rest: "p \<notin> (\<lambda>x. Position x (grid_size (grid ?self1) - 1)) ` set (map fst zs)"
      by (auto simp: z add_entity_size)
    have "get_entity (grid (snd (add_loop zs ?self1))) p = get_entity (grid ?self1) p"
      using rest by (rule Cons.IH)
    also have "\<dots> = get_entity (grid self) p"
      using pq by (simp add: get_entity_def add_entity_def update_conv')
    finally show ?thesis unfolding step .
  qed
qed

lemma add_loop_places:
  assumes "distinct (map fst zs)"
    and "set (map fst zs) \<subseteq> {0 ..< grid_size (grid self)}"
    and "set (map snd zs) \<subseteq> {DESTROYABLE, COLLECTABLE, BLOCKER}"
    and "2 \<le> grid_size (grid self)"
  shows "fst (add_loop zs self) = Returns
       \<and> (\<forall>(pos, kind) \<in> set zs.
            \<exists>e. create_entity (Str kind) = Inr e \<and>
              get_entity (grid (snd (add_loop zs self)))
                (Position pos (grid_size (grid self) - 1)) = Some e)"
  using assms
proof (induction zs arbitrary: self)
  case Nil
  then show ?case by simp
next
  case (Cons z zs)
  obtain pos kind where z: "z = (pos, kind)" by (cases z)
  from Cons.prems(3) obtain e where e: "create_entity (Str kind) = Inr e"
    using create_entity_kind [of kind] by (auto simp: z)
  let ?q = "Position pos (grid_size (grid self) - 1)"
  let ?self1 = "self\<lparr>grid := add_entity (grid self) ?q e\<rparr>"
  have step: "add_loop (z # zs) self = add_loop zs ?self1"
    using e by (simp add: z get_size_def get_grid_def)
  have sz1: "grid_size (grid ?self1) = grid_size (grid self)" by (simp add: add_entity_size)
  have ib: "in_bounds (grid self) ?q"
    using Cons.prems(2,4) by (simp add: z in_bounds_def)
  have IH: "fst (add_loop zs ?self1) = Returns
       \<and> (\<forall>(pos, kind) \<in> set zs.
            \<exists>e. create_entity (Str kind) = Inr e \<and>
              get_entity (grid (snd (add_loop zs ?self1)))
                (Position pos (grid_size (grid ?self1) - 1)) = Some e)"
    using Cons.prems by (intro Cons.IH) (auto simp: z add_entity_size)
  have "?q \<notin> (\<lambda>x. Position x (grid_size (grid ?self1) - 1)) ` set (map fst zs)"
    using Cons.prems(1) by (auto simp: z sz1)
  then have "get_entity (grid (snd (add_loop zs ?self1))) ?q = get_entity (grid ?self1) ?q"
    by (rule add_loop_get_other)
  also have "\<dots> = Some e"
    using ib by (simp add: get_entity_def add_entity_def update_conv')
  finally have here: "get_entity (grid (snd (add_loop zs ?self1))) ?q = Some e" .
  show ?case
    unfolding step using IH here e by (auto simp: z add_entity_size)
qed

lemma step_unfold_raise:
  "generate_draws (gravity self) gen = Inl e \<Longrightarrow> step gen self = (Raises e, gravity self)"
  by (simp add: step_def generate_entities_def)

lemma step_unfold_add:
  "generate_draws (gravity self) gen = Inr (entity_index, entities) \<Longrightarrow>
   step gen self = add_loop (zip entity_index entities) (gravity self)"
  by (simp add: step_def generate_entities_def)

lemma step_counters:
  "num_collected (snd (step gen self)) = num_collected self"
  "num_destroyed (snd (step gen self)) = num_destroyed self"
  "total_shots (snd (step gen self)) = total_shots self"
  by (cases "generate_draws (gravity self) gen";
      auto simp: step_def generate_entities_def add_loop_fields gravity_fields)+

lemma update_filter_other:
  "\<not> P k \<Longrightarrow> filter (\<lambda>item. P (fst item)) (AList.update k v al) = filter (\<lambda>item. P (fst item)) al"
  by (induction al) auto

lemma add_entity_below_top:
  "below_top (self\<lparr>grid := add_entity (grid self) (Position x (grid_size (grid self) - 1)) e\<rparr>)
     = below_top self"
  using update_filter_other [of "\<lambda>p. get_y p < grid_size (grid self) - 1"
      "Position x (grid_size (grid self) - 1)" e "grid_entities (grid self)"]
  by (simp add: below_top_def add_entity_def)

lemma add_loop_below_top: "below_top (snd (add_loop zs self)) = below_top self"
proof (induction zs arbitrary: self)
  case Nil
  then show ?case by simp
next
  case (Cons z zs)
  obtain pos kind where z: "z = (pos, kind)" by (cases z)
  show ?case
  proof (cases "create_entity (Str kind)")
    case (Inl err)
    then show ?thesis by (simp add: z)
  next
    case (Inr e)
    then show ?thesis
      using Cons.IH [of "self\<lparr>grid := add_entity (grid self)
          (Position pos (grid_size (grid self) - 1)) e\<rparr>"]
      by (simp add: z get_size_def get_grid_def add_entity_below_top)
  qed
qed

lemma step_below_top: "below_top (snd (step gen self)) = below_top (gravity self)"
  by (cases "generate_draws (gravity self) gen")
     (auto simp: step_def generate_entities_def add_loop_below_top)

lemma gravity_below_top:
  assumes "grid_ok self"
  shows "below_top (gravity self) = grid_entities (grid (gravity self))"
proof -
  from assms have gs: "grid_size (grid (gravity self)) = game_size self"
    by (simp add: gravity_fields grid_ok_def)
  have "\<forall>item \<in> set (grid_entities (grid (gravity self))).
          get_y (fst item) < grid_size (grid (gravity self)) - 1"
    using gravity_keys [OF assms] gs by auto
  then show ?thesis by (simp add: below_top_def)
qed

lemma step_carries_gravity:
  assumes "grid_ok self"
  shows "below_top (snd (step gen self)) = grid_entities (grid (gravity self))"
  using gravity_below_top [OF assms] by (simp add: step_below_top)

lemma step_game_over_gravity:
  "game_over (snd (step gen self)) = game_over (gravity self)"
  by (cases "generate_draws (gravity self) gen")
     (auto simp: step_def generate_entities_def add_loop_fields)

lemma step_after:
  "gravity self = after \<Longrightarrow>
   step gen self = generate_entities gen after
   \<and> game_over (snd (step gen self)) = game_over after
   \<and> (grid_ok self \<longrightarrow> below_top (snd (step gen self)) = grid_entities (grid after))"
proof -
  assume a: "gravity self = after"
  have "step gen self = generate_entities gen after" by (simp add: step_def a)
  moreover have "game_over (snd (step gen self)) = game_over after"
    by (simp add: step_game_over_gravity a)
  moreover have "grid_ok self \<longrightarrow> below_top (snd (step gen self)) = grid_entities (grid after)"
    using step_carries_gravity [of self gen] by (simp add: a)
  ultimately show ?thesis by simp
qed

section \<open>The scan of fire\<close>

lemma fire_loop_total_shots:
  "total_shots (fire_loop sp shot_type x ys self) = total_shots self"
  by (induction ys) (auto simp: Let_def split: option.splits)

lemma remove_entity_ok:
  assumes "grid_ok self"
  shows "grid_ok (self\<lparr>grid := remove_entity (grid self) p\<rparr>)"
proof (cases "p \<in> fst ` set (grid_entities (grid self))")
  case True
  let ?es = "grid_entities (grid self)"
  have sub: "set (map fst (AList.delete p ?es)) \<subseteq> set (map fst ?es)"
    using dom_delete_subset [of p ?es] by simp
  from assms have "\<forall>q \<in> set (map fst ?es). in_bounds (grid self) q"
    by (simp add: grid_ok_def)
  with sub have "\<forall>q \<in> set (map fst (AList.delete p ?es)). in_bounds (grid self) q"
    by blast
  moreover have "distinct (map fst (AList.delete p ?es))"
    using assms by (simp add: grid_ok_def distinct_delete)
  moreover have "grid_size (grid self) = game_size self"
    using assms by (simp add: grid_ok_def)
  ultimately show ?thesis using True
    by (simp add: grid_ok_def remove_entity_def in_bounds_def)
next
  case False
  with assms show ?thesis by (simp add: grid_ok_def remove_entity_def)
qed

lemma grid_ok_counters:
  "grid_ok (self\<lparr>num_destroyed := a\<rparr>) = grid_ok self"
  "grid_ok (self\<lparr>num_collected := b\<rparr>) = grid_ok self"
  "grid_ok (self\<lparr>total_shots := c\<rparr>) = grid_ok self"
  by (simp_all add: grid_ok_def)

lemma fire_loop_ok: "grid_ok self \<Longrightarrow> grid_ok (fire_loop sp shot_type x ys self)"
proof (induction ys)
  case Nil
  then show ?case by simp
next
  case (Cons y ys)
  have "grid_ok (self\<lparr>num_destroyed := a, grid := remove_entity (grid self) p\<rparr>)" for a p
    using remove_entity_ok [OF Cons.prems, of p] by (simp add: grid_ok_def)
  moreover have "grid_ok (self\<lparr>num_collected := a, grid := remove_entity (grid self) p\<rparr>)" for a p
    using remove_entity_ok [OF Cons.prems, of p] by (simp add: grid_ok_def)
  ultimately show ?case using Cons
    by (auto simp: Let_def split: option.splits)
qed

lemma fire_ok: "grid_ok self \<Longrightarrow> grid_ok (fire sp shot_type self)"
  by (simp add: fire_def Let_def fire_loop_ok grid_ok_counters)

lemma fire_loop_size: "game_size (fire_loop sp shot_type x ys self) = game_size self"
  by (induction ys) (auto simp: Let_def split: option.splits)

lemma fire_size: "game_size (fire sp shot_type self) = game_size self"
  by (simp add: fire_def Let_def fire_loop_size)

lemma fire_loop_counters:
  "(num_collected (fire_loop sp shot_type x ys self) = num_collected self
      \<and> num_destroyed (fire_loop sp shot_type x ys self) = num_destroyed self)
   \<or> (num_collected (fire_loop sp shot_type x ys self) = num_collected self + 1
      \<and> num_destroyed (fire_loop sp shot_type x ys self) = num_destroyed self)
   \<or> (num_collected (fire_loop sp shot_type x ys self) = num_collected self
      \<and> num_destroyed (fire_loop sp shot_type x ys self) = num_destroyed self + 1)"
  by (induction ys) (auto simp: Let_def split: option.splits)

lemma fire_counters:
  "total_shots (fire sp shot_type self) = total_shots self + 1
   \<and> num_collected self \<le> num_collected (fire sp shot_type self)
   \<and> num_destroyed self \<le> num_destroyed (fire sp shot_type self)
   \<and> num_collected (fire sp shot_type self) + num_destroyed (fire sp shot_type self)
       \<le> num_collected self + num_destroyed self + 1"
  using fire_loop_counters [of sp shot_type "get_x (player_position self)"
      "[1 .. game_size self - 1]" "self\<lparr>total_shots := total_shots self + 1\<rparr>"]
  by (auto simp: fire_def Let_def fire_loop_total_shots)

lemma fire_loop_skip:
  "\<forall>y \<in> set ys. get_entity (grid self) (Position x y) = None \<Longrightarrow>
   fire_loop sp shot_type x (ys @ rest) self = fire_loop sp shot_type x rest self"
  by (induction ys) (simp_all add: Let_def)

lemma fire_at_lowest:
  assumes "lowest_occupied self y entity"
  shows "fire sp shot_type self =
           fire_loop sp shot_type (get_x (player_position self)) (y # [y + 1 .. game_size self - 1])
             (self\<lparr>total_shots := total_shots self + 1\<rparr>)"
proof -
  let ?x = "get_x (player_position self)"
  let ?self1 = "self\<lparr>total_shots := total_shots self + 1\<rparr>"
  from assms have y: "1 \<le> y" "y \<le> game_size self - 1"
    and below: "\<forall>y' \<in> set [1 .. y - 1]. get_entity (grid ?self1) (Position ?x y') = None"
    by (simp_all add: lowest_occupied_def)
  have "[1 .. game_size self - 1] = [1 .. y - 1] @ [y .. game_size self - 1]"
    using y by (rule upto_split1)
  also have "[y .. game_size self - 1] = y # [y + 1 .. game_size self - 1]"
    using y(2) by (rule upto_rec1)
  finally have split: "[1 .. game_size self - 1] = [1 .. y - 1] @ y # [y + 1 .. game_size self - 1]" .
  show ?thesis
    using fire_loop_skip [OF below, of sp shot_type "y # [y + 1 .. game_size self - 1]"]
    by (simp add: fire_def Let_def split)
qed

section \<open>The invariants of a session\<close>

lemma rotate_grid_counters:
  "num_collected (snd (rotate_grid sp direction self)) = num_collected self"
  "num_destroyed (snd (rotate_grid sp direction self)) = num_destroyed self"
  "total_shots (snd (rotate_grid sp direction self)) = total_shots self"
  by (simp_all add: rotate_grid_def Let_def split: option.splits sum.splits)

lemma rotate_grid_ok:
  assumes ok: "grid_ok self"
  shows "grid_ok (snd (rotate_grid sp direction self))
       \<and> game_size (snd (rotate_grid sp direction self)) = game_size self"
proof (cases "direction \<in> set (DIRECTIONS sp)
              \<and> (\<exists>i. index (DIRECTIONS sp) direction = Some i \<and> i < length (ROTATIONS sp))")
  case True
  then obtain i where i: "index (DIRECTIONS sp) direction = Some i" "i < length (ROTATIONS sp)"
    by blast
  have "rotate_grid sp direction self =
           (Returns, self\<lparr>grid := (grid self)\<lparr>grid_entities :=
              map (rotated (fst (ROTATIONS sp ! i)) (game_size self))
                (grid_entities (grid self))\<rparr>\<rparr>)"
    using ok i by (rule rotate_grid_at)
  then show ?thesis using grid_ok_rotated [OF ok] by simp
next
  case False
  then have "snd (rotate_grid sp direction self) = self"
    using index_Some_iff [of "DIRECTIONS sp" direction]
    by (auto simp: rotate_grid_def split: option.splits)
  with ok show ?thesis by simp
qed

lemma step_ok:
  assumes ok: "grid_ok self"
  shows "grid_ok (snd (step gen self)) \<and> game_size (snd (step gen self)) = game_size self"
proof (cases "generate_draws (gravity self) gen")
  case (Inl e)
  then show ?thesis using gravity_ok [OF ok]
    by (simp add: step_def generate_entities_def gravity_fields)
next
  case (Inr r)
  then show ?thesis using add_loop_ok [OF gravity_ok [OF ok]]
    by (cases r) (simp add: step_def generate_entities_def add_loop_fields gravity_fields)
qed

lemma Game_init_ok: "grid_ok (Game_init sz)"
  by (simp add: grid_ok_def Game_init_def Grid_init_def)

lemma reachable_ok:
  "reachable sp sz self \<Longrightarrow> grid_ok self \<and> game_size self = sz"
proof (induction rule: reachable.induct)
  case fresh
  then show ?case by (simp add: Game_init_ok) (simp add: Game_init_def)
next
  case (after_rotate self direction)
  then show ?case using rotate_grid_ok by simp
next
  case (after_step self gen)
  then show ?case using step_ok by simp
next
  case (after_fire self shot_type)
  then show ?case by (simp add: fire_ok fire_size)
qed

lemma reachable_counters:
  "reachable sp sz self \<Longrightarrow>
   0 \<le> num_collected self \<and> 0 \<le> num_destroyed self
   \<and> num_collected self + num_destroyed self \<le> total_shots self"
proof (induction rule: reachable.induct)
  case fresh
  then show ?case by (simp add: Game_init_def)
next
  case (after_rotate self direction)
  then show ?case by (simp add: rotate_grid_counters)
next
  case (after_step self gen)
  then show ?case by (simp add: step_counters)
next
  case (after_fire self shot_type)
  then show ?case using fire_counters [of sp shot_type self] by linarith
qed

section \<open>The examples, evaluated\<close>

lemma example_game_eq:
  "example_game =
     \<lparr>game_size = 5, game_over = False,
      grid = \<lparr>grid_size = 5, grid_entities =
         [(Position 0 2, Collectable), (Position 1 1, Destroyable), (Position 2 3, Collectable)]\<rparr>,
      player_position = Position 2 0, num_collected = 0, num_destroyed = 0, total_shots = 0\<rparr>"
  by (simp add: example_game_def Game_init_def Grid_init_def add_entity_def in_bounds_def)

lemma example_game_ok: "grid_ok example_game"
  by (simp add: example_game_eq grid_ok_def in_bounds_def)

lemma example_gravity:
  "gravity example_game = example_game\<lparr>game_over := True,
      grid := \<lparr>grid_size = 5, grid_entities = [(Position 0 1, Collectable)]\<rparr>\<rparr>"
  by (simp add: example_game_eq gravity_def get_entities_def renew_entities_def MOVE_def)

lemma example_draws:
  "generate_draws (gravity example_game) [1, 0, 3, 0, 0] = Inr ([0, 1], [''D'', ''B''])"
  unfolding example_gravity example_game_eq by code_simp

lemma example_rotated_right:
  "snd (rotate_grid example_support ''RIGHT'' example_game) =
     example_game\<lparr>grid := \<lparr>grid_size = 5, grid_entities =
       [(Position 1 2, Collectable), (Position 2 1, Destroyable), (Position 3 3, Collectable)]\<rparr>\<rparr>"
  by (simp add: example_game_eq example_support_def rotate_grid_def get_entities_def
      renew_entities_def)

lemma example_first_step:
  "snd (step [1, 0, 3, 0, 0] (Game_init 5)) =
     \<lparr>game_size = 5, game_over = False,
      grid = \<lparr>grid_size = 5, grid_entities =
         [(Position 0 4, Destroyable), (Position 1 4, Blocker)]\<rparr>,
      player_position = Position 2 0, num_collected = 0, num_destroyed = 0, total_shots = 0\<rparr>"
  by code_simp

lemma example_second_draws:
  "generate_draws (gravity (snd (step [1, 0, 3, 0, 0] (Game_init 5)))) [1, 1, 3, 2, 0]
     = Inr ([2, 0], [''C'', ''B''])"
  unfolding example_first_step by code_simp

lemma example_second_placement:
  "get_entity (grid (snd (add_loop [(2, ''C'')]
      (gravity (snd (step [1, 0, 3, 0, 0] (Game_init 5))))))) (Position 2 4) = Some Collectable"
  unfolding example_first_step by code_simp

lemma example_losing_step:
  "grid_entities (grid (snd (step [1, 0, 3, 0, 0] example_game)))
     = [(Position 0 1, Collectable), (Position 0 4, Destroyable), (Position 1 4, Blocker)]"
  unfolding example_game_eq by code_simp

section \<open>Entity construction\<close>

text \<open>
  C2. Construction from a display character returns the matching variant for each of
  \<^verbatim>\<open>'P'\<close>, \<^verbatim>\<open>'D'\<close>, \<^verbatim>\<open>'C'\<close>, \<^verbatim>\<open>'B'\<close> and signals an error exactly for every other
  input. The code does not: \<^verbatim>\<open>_create_entity\<close> tests \<^verbatim>\<open>display == Player\<close>, the class,
  where the three other tests compare with the character constant, so for the character
  \<^verbatim>\<open>'P'\<close> no test succeeds and \<^verbatim>\<open>NotImplementedError\<close> is raised. The characters
  \<^verbatim>\<open>'D'\<close>, \<^verbatim>\<open>'C'\<close>, \<^verbatim>\<open>'B'\<close> give their variants.
\<close>

theorem create_entity_player_char_raises:
  "create_entity (Str ''P'') = Inl NotImplementedError
   \<and> create_entity (Str PLAYER) = Inl NotImplementedError
   \<and> create_entity (Str ''D'') = Inr Destroyable
   \<and> create_entity (Str ''C'') = Inr Collectable
   \<and> create_entity (Str ''B'') = Inr Blocker"
  by (simp add: create_entity_def PLAYER_def DESTROYABLE_def COLLECTABLE_def BLOCKER_def)

section \<open>rotate\_grid\<close>

text \<open>
  C6. For every game whose grid satisfies the invariant of the data model and every
  direction of \<^verbatim>\<open>DIRECTIONS\<close> (the table \<^verbatim>\<open>ROTATIONS\<close> having an entry for each):
  \<^verbatim>\<open>rotate_grid\<close> with that direction, called \<open>size\<close> times, returns each time and leaves
  the game as it was, the order of the dict included; and one call replaces each item
  by the item with x shifted by the offset of the direction modulo \<open>size\<close>, with the
  same y and the same entity. This holds for any offset in the table, so for the
  offsets \<open>+1\<close> and \<open>-1\<close> in particular.
\<close>

theorem rotate_grid_closure:
  assumes "grid_ok self" and "direction \<in> set (DIRECTIONS sp)"
    and "length (DIRECTIONS sp) \<le> length (ROTATIONS sp)"
  shows "rotate_times sp direction (nat (game_size self)) self = (Returns, self)
       \<and> rotate_grid sp direction self =
           (Returns, self\<lparr>grid := (grid self)\<lparr>grid_entities :=
              map (rotated (x_offset sp direction) (game_size self))
                (grid_entities (grid self))\<rparr>\<rparr>)"
  using rotate_closure [OF assms] rotate_grid_on_ok [OF assms] by simp

theorem rotate_grid_closure_witness:
  "grid_ok example_game \<and> ''LEFT'' \<in> set (DIRECTIONS example_support)
   \<and> length (DIRECTIONS example_support) \<le> length (ROTATIONS example_support)
   \<and> rotate_times example_support ''LEFT'' 5 example_game = (Returns, example_game)
   \<and> grid_entities (grid (snd (rotate_grid example_support ''LEFT'' example_game)))
        = [(Position 4 2, Collectable), (Position 0 1, Destroyable), (Position 1 3, Collectable)]"
proof -
  have d: "''LEFT'' \<in> set (DIRECTIONS example_support)"
    and l: "length (DIRECTIONS example_support) \<le> length (ROTATIONS example_support)"
    by (simp_all add: example_support_def)
  have s: "nat (game_size example_game) = 5" by (simp add: example_game_eq)
  have x: "x_offset example_support ''LEFT'' = - 1"
    by (simp add: x_offset_def example_support_def)
  from rotate_grid_closure [OF example_game_ok d l] show ?thesis
    using example_game_ok d l unfolding s x
    by (simp add: example_game_eq rotated_def)
qed

text \<open>
  C9. For every direction that is not in \<^verbatim>\<open>DIRECTIONS\<close>, \<^verbatim>\<open>rotate_grid\<close> raises
  (\<^verbatim>\<open>ValueError\<close>, from \<^verbatim>\<open>DIRECTIONS.index\<close>) before the loop, and the game, its grid
  and its counters, is unchanged.
\<close>

theorem rotate_grid_unknown_direction:
  "direction \<notin> set (DIRECTIONS sp) \<Longrightarrow> rotate_grid sp direction self = (Raises ValueError, self)"
  by (simp add: rotate_grid_def index_None_iff [THEN iffD2])

theorem rotate_grid_unknown_direction_witness:
  "''UP'' \<notin> set (DIRECTIONS example_support)
   \<and> rotate_grid example_support ''UP'' example_game = (Raises ValueError, example_game)"
  using rotate_grid_unknown_direction [of "''UP''" example_support example_game]
  by (simp add: example_support_def)

section \<open>step\<close>

text \<open>
  C1. In every call of \<^verbatim>\<open>step\<close> in which the gravity pass sets \<^verbatim>\<open>game_over\<close>, the
  spawn phase still runs in the same tick: the \<^verbatim>\<open>break\<close> leaves the gravity loop only.
  The draws of \<^verbatim>\<open>generate_entities\<close> are made on the state that the gravity pass left;
  when they succeed (they do for every size from 3 on) the call returns, the game is
  over, and every drawn entity is in the grid afterwards, in the top row \<open>size - 1\<close> at
  its drawn column. When a draw raises, \<^verbatim>\<open>step\<close> raises the same error out of the spawn
  phase, after the gravity pass.
\<close>

theorem step_spawns_on_losing_tick:
  assumes "\<not> game_over self" and "game_over (gravity self)"
  shows "(3 \<le> grid_size (grid self) \<longrightarrow>
            (\<exists>entity_index entities. generate_draws (gravity self) gen = Inr (entity_index, entities)))
       \<and> (case generate_draws (gravity self) gen of
            Inl e \<Rightarrow> step gen self = (Raises e, gravity self)
          | Inr (entity_index, entities) \<Rightarrow>
              fst (step gen self) = Returns \<and> game_over (snd (step gen self)) \<and>
              (\<forall>(pos, kind) \<in> set (zip entity_index entities).
                 \<exists>e. create_entity (Str kind) = Inr e \<and>
                   get_entity (grid (snd (step gen self)))
                     (Position pos (grid_size (grid self) - 1)) = Some e))"
proof (intro conjI impI)
  assume "3 \<le> grid_size (grid self)"
  then have "3 \<le> grid_size (grid (gravity self))" by (simp add: gravity_fields)
  then show "\<exists>entity_index entities. generate_draws (gravity self) gen = Inr (entity_index, entities)"
    by (rule generate_draws_succeeds)
next
  show "case generate_draws (gravity self) gen of
            Inl e \<Rightarrow> step gen self = (Raises e, gravity self)
          | Inr (entity_index, entities) \<Rightarrow>
              fst (step gen self) = Returns \<and> game_over (snd (step gen self)) \<and>
              (\<forall>(pos, kind) \<in> set (zip entity_index entities).
                 \<exists>e. create_entity (Str kind) = Inr e \<and>
                   get_entity (grid (snd (step gen self)))
                     (Position pos (grid_size (grid self) - 1)) = Some e)"
  proof (cases "generate_draws (gravity self) gen")
    case (Inl e)
    then show ?thesis by (simp add: step_unfold_raise)
  next
    case (Inr r)
    obtain entity_index entities where r: "r = (entity_index, entities)" by (cases r)
    let ?zs = "zip entity_index entities"
    from Inr r have draws: "generate_draws (gravity self) gen = Inr (entity_index, entities)"
      by simp
    from generate_draws_result [OF draws]
    have d: "distinct entity_index"
      and b: "set entity_index \<subseteq> {0 ..< grid_size (grid (gravity self))}"
      and k: "set entities \<subseteq> {DESTROYABLE, COLLECTABLE, BLOCKER}"
      and l: "length entity_index = length entities" by simp_all
    from generate_draws_size [OF draws] have sz: "2 \<le> grid_size (grid (gravity self))" by simp
    have "distinct (map fst ?zs)" "set (map fst ?zs) \<subseteq> {0 ..< grid_size (grid (gravity self))}"
      "set (map snd ?zs) \<subseteq> {DESTROYABLE, COLLECTABLE, BLOCKER}"
      using d b k l by simp_all
    from add_loop_places [OF this sz]
    have "fst (add_loop ?zs (gravity self)) = Returns
       \<and> (\<forall>(pos, kind) \<in> set ?zs.
            \<exists>e. create_entity (Str kind) = Inr e \<and>
              get_entity (grid (snd (add_loop ?zs (gravity self))))
                (Position pos (grid_size (grid (gravity self)) - 1)) = Some e)" .
    then show ?thesis
      using assms(2) draws
      by (simp add: step_unfold_add gravity_fields add_loop_fields)
  qed
qed

theorem step_spawns_on_losing_tick_witness:
  "\<not> game_over example_game \<and> game_over (gravity example_game)
   \<and> fst (step [1, 0, 3, 0, 0] example_game) = Returns
   \<and> game_over (snd (step [1, 0, 3, 0, 0] example_game))
   \<and> get_entity (grid (snd (step [1, 0, 3, 0, 0] example_game))) (Position 0 4) = Some Destroyable
   \<and> get_entity (grid (snd (step [1, 0, 3, 0, 0] example_game))) (Position 1 4) = Some Blocker"
proof -
  have a: "\<not> game_over example_game" by (simp add: example_game_eq)
  have b: "game_over (gravity example_game)" by (simp add: example_gravity)
  have c: "create_entity (Str ''D'') = Inr Destroyable" "create_entity (Str ''B'') = Inr Blocker"
    by (simp_all add: create_entity_def DESTROYABLE_def COLLECTABLE_def BLOCKER_def)
  have s: "grid_size (grid example_game) = 5" by (simp add: example_game_eq)
  from step_spawns_on_losing_tick [OF a b, of "[1, 0, 3, 0, 0]"] show ?thesis
    using a b unfolding example_draws s by (simp add: c)
qed

text \<open>
  C3, as amended. For every grid size below 3, \<^verbatim>\<open>step\<close> raises \<^verbatim>\<open>ValueError\<close> at
  the draw of the spawn count, whatever the generator: \<^verbatim>\<open>random.randint(0, size - 3)\<close>
  has an empty range. No entity is spawned, and the object is left as the gravity pass
  made it. (The claim was that the spawn count is then zero and the call completes.)
\<close>

theorem step_small_grid_raises:
  "grid_size (grid self) < 3 \<Longrightarrow> step gen self = (Raises ValueError, gravity self)"
  by (simp add: step_unfold_raise generate_draws_raises gravity_fields)

theorem step_small_grid_raises_witness:
  "grid_size (grid (Game_init 2)) < 3
   \<and> step [1, 0, 3] (Game_init 2) = (Raises ValueError, Game_init 2)"
proof -
  have s: "grid_size (grid (Game_init 2)) < 3" by (simp add: Game_init_def Grid_init_def)
  have g: "gravity (Game_init 2) = Game_init 2"
    by (simp add: gravity_def Game_init_def Grid_init_def renew_entities_def get_entities_def)
  from step_small_grid_raises [OF s, of "[1, 0, 3]"] s g show ?thesis by simp
qed

text \<open>
  The claim as it stands fails in a fresh game of size 2: the call does not return.
\<close>

theorem step_small_grid_counterexample:
  "fst (step [] (Game_init 2)) = Raises ValueError"
  by (simp add: step_def generate_entities_def generate_draws_def randint_def
      get_size_def get_grid_def gravity_def Game_init_def Grid_init_def renew_entities_def
      get_entities_def)

text \<open>
  C4. The gravity pass of \<^verbatim>\<open>step\<close>, on a dict (its keys are unique). When the first
  item whose new row would be below 1 holds a Destroyable, \<^verbatim>\<open>game_over\<close> is set and the
  pass stops there: the grid that the pass builds holds the items before it, one row
  down, and nothing of the items after it. \<^verbatim>\<open>step\<close> then runs the spawn on that state,
  so after the call the game is over, and (the grid satisfying its invariant) the items
  below the top row are exactly the items carried forward: no item after the break is
  left in the grid. More generally the pass stops at the first Destroyable that falls
  off, and of the items before it those that fall off (none of them a Destroyable) are
  left out. When no Destroyable falls off, the items that fall off are left out, the
  others are carried one row down, and \<^verbatim>\<open>game_over\<close> after the call is as before it.
  The call changes no counter.
\<close>

theorem gravity_break_on_first_loss:
  assumes "distinct (map fst (grid_entities (grid self)))"
  shows "(\<forall>pre p post.
            grid_entities (grid self) = pre @ (p, Destroyable) # post
            \<and> (\<forall>item \<in> set pre. \<not> falls item) \<and> falls (p, Destroyable) \<longrightarrow>
            gravity self = self\<lparr>game_over := True,
                                grid := (grid self)\<lparr>grid_entities := map moved pre\<rparr>\<rparr>
            \<and> step gen self = generate_entities gen
                 (self\<lparr>game_over := True,
                        grid := (grid self)\<lparr>grid_entities := map moved pre\<rparr>\<rparr>)
            \<and> game_over (snd (step gen self))
            \<and> (grid_ok self \<longrightarrow> below_top (snd (step gen self)) = map moved pre))
       \<and> (\<forall>pre p post.
            grid_entities (grid self) = pre @ (p, Destroyable) # post
            \<and> (\<forall>item \<in> set pre. falls item \<longrightarrow> snd item \<noteq> Destroyable)
            \<and> falls (p, Destroyable) \<longrightarrow>
            gravity self = self\<lparr>game_over := True,
                                grid := (grid self)\<lparr>grid_entities :=
                                  map moved (filter (\<lambda>item. \<not> falls item) pre)\<rparr>\<rparr>
            \<and> step gen self = generate_entities gen
                 (self\<lparr>game_over := True,
                        grid := (grid self)\<lparr>grid_entities :=
                          map moved (filter (\<lambda>item. \<not> falls item) pre)\<rparr>\<rparr>)
            \<and> game_over (snd (step gen self))
            \<and> (grid_ok self \<longrightarrow>
                  below_top (snd (step gen self))
                    = map moved (filter (\<lambda>item. \<not> falls item) pre)))
       \<and> ((\<forall>item \<in> set (grid_entities (grid self)). falls item \<longrightarrow> snd item \<noteq> Destroyable) \<longrightarrow>
            gravity self = self\<lparr>grid := (grid self)\<lparr>grid_entities :=
              map moved (filter (\<lambda>item. \<not> falls item) (grid_entities (grid self)))\<rparr>\<rparr>
            \<and> step gen self = generate_entities gen
                 (self\<lparr>grid := (grid self)\<lparr>grid_entities :=
                    map moved (filter (\<lambda>item. \<not> falls item) (grid_entities (grid self)))\<rparr>\<rparr>)
            \<and> game_over (snd (step gen self)) = game_over self
            \<and> (grid_ok self \<longrightarrow>
                  below_top (snd (step gen self))
                    = map moved (filter (\<lambda>item. \<not> falls item) (grid_entities (grid self)))))
       \<and> num_collected (snd (step gen self)) = num_collected self
       \<and> num_destroyed (snd (step gen self)) = num_destroyed self
       \<and> total_shots (snd (step gen self)) = total_shots self"
proof -
  let ?es = "grid_entities (grid self)"
  let ?lost = "\<lambda>ents. self\<lparr>game_over := True, grid := (grid self)\<lparr>grid_entities := ents\<rparr>\<rparr>"
  let ?kept = "self\<lparr>grid := (grid self)\<lparr>grid_entities :=
                 map moved (filter (\<lambda>item. \<not> falls item) ?es)\<rparr>\<rparr>"
  have general: "gravity self = ?lost (map moved (filter (\<lambda>item. \<not> falls item) pre))"
    if es: "?es = pre @ (p, Destroyable) # post"
      and nd: "\<forall>item \<in> set pre. falls item \<longrightarrow> snd item \<noteq> Destroyable"
      and f: "falls (p, Destroyable)" for pre p post
  proof -
    from assms es have "distinct (map fst (filter (\<lambda>item. \<not> falls item) pre))"
      by (simp add: distinct_map_filter)
    then have d: "distinct (map fst ([] @ map moved (filter (\<lambda>item. \<not> falls item) pre)))"
      using moved_keys_distinct by simp
    have "step_loop (pre @ (p, Destroyable) # post) [] (game_over self)
            = ([] @ map moved (filter (\<lambda>item. \<not> falls item) pre), True)"
      using nd f d by (rule step_loop_loss)
    then have "step_loop ?es [] (game_over self)
            = (map moved (filter (\<lambda>item. \<not> falls item) pre), True)"
      by (simp add: es)
    then show ?thesis by (rule gravity_of_loop)
  qed
  have first: "gravity self = ?lost (map moved pre)"
    if es: "?es = pre @ (p, Destroyable) # post"
      and stay: "\<forall>item \<in> set pre. \<not> falls item"
      and f: "falls (p, Destroyable)" for pre p post
  proof -
    from stay have keep: "filter (\<lambda>item. \<not> falls item) pre = pre" by simp
    from stay have "\<forall>item \<in> set pre. falls item \<longrightarrow> snd item \<noteq> Destroyable" by simp
    from general [OF es this f] show ?thesis by (simp only: keep)
  qed
  have no_loss: "gravity self = ?kept"
    if nd: "\<forall>item \<in> set ?es. falls item \<longrightarrow> snd item \<noteq> Destroyable"
  proof -
    from assms have "distinct (map fst (filter (\<lambda>item. \<not> falls item) ?es))"
      by (simp add: distinct_map_filter)
    then have d: "distinct (map fst ([] @ map moved (filter (\<lambda>item. \<not> falls item) ?es)))"
      using moved_keys_distinct by simp
    have "step_loop ?es [] (game_over self)
            = ([] @ map moved (filter (\<lambda>item. \<not> falls item) ?es), game_over self)"
      using nd d by (rule step_loop_no_loss)
    then have "step_loop ?es [] (game_over self)
            = (map moved (filter (\<lambda>item. \<not> falls item) ?es), game_over self)" by simp
    from gravity_of_loop [OF this] show ?thesis by simp
  qed
  have c1: "\<forall>pre p post.
            ?es = pre @ (p, Destroyable) # post
            \<and> (\<forall>item \<in> set pre. \<not> falls item) \<and> falls (p, Destroyable) \<longrightarrow>
            gravity self = ?lost (map moved pre)
            \<and> step gen self = generate_entities gen (?lost (map moved pre))
            \<and> game_over (snd (step gen self))
            \<and> (grid_ok self \<longrightarrow> below_top (snd (step gen self)) = map moved pre)"
  proof (intro allI impI)
    fix pre p post
    assume "?es = pre @ (p, Destroyable) # post
            \<and> (\<forall>item \<in> set pre. \<not> falls item) \<and> falls (p, Destroyable)"
    then have g: "gravity self = ?lost (map moved pre)" using first by blast
    from step_after [OF g, of gen]
    have s1: "step gen self = generate_entities gen (?lost (map moved pre))"
      and s2: "game_over (snd (step gen self)) = game_over (?lost (map moved pre))"
      and s3: "grid_ok self \<longrightarrow>
                 below_top (snd (step gen self)) = grid_entities (grid (?lost (map moved pre)))"
      by blast+
    from s2 have s2': "game_over (snd (step gen self))" by simp
    from s3 have s3': "grid_ok self \<longrightarrow> below_top (snd (step gen self)) = map moved pre"
      by simp
    from g s1 s2' s3'
    show "gravity self = ?lost (map moved pre)
            \<and> step gen self = generate_entities gen (?lost (map moved pre))
            \<and> game_over (snd (step gen self))
            \<and> (grid_ok self \<longrightarrow> below_top (snd (step gen self)) = map moved pre)"
      by blast
  qed
  have c2: "\<forall>pre p post.
            ?es = pre @ (p, Destroyable) # post
            \<and> (\<forall>item \<in> set pre. falls item \<longrightarrow> snd item \<noteq> Destroyable)
            \<and> falls (p, Destroyable) \<longrightarrow>
            gravity self = ?lost (map moved (filter (\<lambda>item. \<not> falls item) pre))
            \<and> step gen self = generate_entities gen
                 (?lost (map moved (filter (\<lambda>item. \<not> falls item) pre)))
            \<and> game_over (snd (step gen self))
            \<and> (grid_ok self \<longrightarrow>
                  below_top (snd (step gen self))
                    = map moved (filter (\<lambda>item. \<not> falls item) pre))"
  proof (intro allI impI)
    fix pre p post
    assume "?es = pre @ (p, Destroyable) # post
            \<and> (\<forall>item \<in> set pre. falls item \<longrightarrow> snd item \<noteq> Destroyable)
            \<and> falls (p, Destroyable)"
    then have g: "gravity self = ?lost (map moved (filter (\<lambda>item. \<not> falls item) pre))"
      using general by blast
    let ?carried = "map moved (filter (\<lambda>item. \<not> falls item) pre)"
    from step_after [OF g, of gen]
    have s1: "step gen self = generate_entities gen (?lost ?carried)"
      and s2: "game_over (snd (step gen self)) = game_over (?lost ?carried)"
      and s3: "grid_ok self \<longrightarrow>
                 below_top (snd (step gen self)) = grid_entities (grid (?lost ?carried))"
      by blast+
    from s2 have s2': "game_over (snd (step gen self))" by simp
    from s3 have s3': "grid_ok self \<longrightarrow> below_top (snd (step gen self)) = ?carried"
      by simp
    from g s1 s2' s3'
    show "gravity self = ?lost (map moved (filter (\<lambda>item. \<not> falls item) pre))
            \<and> step gen self = generate_entities gen
                 (?lost (map moved (filter (\<lambda>item. \<not> falls item) pre)))
            \<and> game_over (snd (step gen self))
            \<and> (grid_ok self \<longrightarrow>
                  below_top (snd (step gen self))
                    = map moved (filter (\<lambda>item. \<not> falls item) pre))"
      by blast
  qed
  have c3: "(\<forall>item \<in> set ?es. falls item \<longrightarrow> snd item \<noteq> Destroyable) \<longrightarrow>
            gravity self = ?kept
            \<and> step gen self = generate_entities gen ?kept
            \<and> game_over (snd (step gen self)) = game_over self
            \<and> (grid_ok self \<longrightarrow>
                  below_top (snd (step gen self))
                    = map moved (filter (\<lambda>item. \<not> falls item) ?es))"
  proof
    assume "\<forall>item \<in> set ?es. falls item \<longrightarrow> snd item \<noteq> Destroyable"
    then have g: "gravity self = ?kept" by (rule no_loss)
    from step_after [OF g, of gen]
    have s1: "step gen self = generate_entities gen ?kept"
      and s2: "game_over (snd (step gen self)) = game_over ?kept"
      and s3: "grid_ok self \<longrightarrow> below_top (snd (step gen self)) = grid_entities (grid ?kept)"
      by blast+
    from s2 have s2': "game_over (snd (step gen self)) = game_over self" by simp
    from s3 have s3': "grid_ok self \<longrightarrow>
        below_top (snd (step gen self)) = map moved (filter (\<lambda>item. \<not> falls item) ?es)"
      by simp
    from g s1 s2' s3'
    show "gravity self = ?kept
            \<and> step gen self = generate_entities gen ?kept
            \<and> game_over (snd (step gen self)) = game_over self
            \<and> (grid_ok self \<longrightarrow>
                  below_top (snd (step gen self))
                    = map moved (filter (\<lambda>item. \<not> falls item) ?es))"
      by blast
  qed
  have c4: "num_collected (snd (step gen self)) = num_collected self
       \<and> num_destroyed (snd (step gen self)) = num_destroyed self
       \<and> total_shots (snd (step gen self)) = total_shots self"
    by (simp add: step_counters)
  from c1 c2 c3 c4 show ?thesis by blast
qed

theorem gravity_break_on_first_loss_witness:
  "distinct (map fst (grid_entities (grid example_game)))
   \<and> grid_entities (grid example_game)
       = [(Position 0 2, Collectable)] @ (Position 1 1, Destroyable) # [(Position 2 3, Collectable)]
   \<and> \<not> falls (Position 0 2, Collectable)
   \<and> falls (Position 1 1, Destroyable)
   \<and> grid_ok example_game
   \<and> \<not> game_over example_game
   \<and> gravity example_game = example_game\<lparr>game_over := True,
        grid := (grid example_game)\<lparr>grid_entities := [(Position 0 1, Collectable)]\<rparr>\<rparr>
   \<and> game_over (snd (step [1, 0, 3, 0, 0] example_game))
   \<and> below_top (snd (step [1, 0, 3, 0, 0] example_game)) = [(Position 0 1, Collectable)]
   \<and> grid_entities (grid (snd (step [1, 0, 3, 0, 0] example_game)))
       = [(Position 0 1, Collectable), (Position 0 4, Destroyable), (Position 1 4, Blocker)]"
proof -
  have d: "distinct (map fst (grid_entities (grid example_game)))"
    by (simp add: example_game_eq)
  have es: "grid_entities (grid example_game)
       = [(Position 0 2, Collectable)] @ (Position 1 1, Destroyable) # [(Position 2 3, Collectable)]"
    by (simp add: example_game_eq)
  have s: "\<forall>item \<in> set [(Position 0 2, Collectable)]. \<not> falls item"
    by (simp add: falls_def MOVE_def)
  have f: "falls (Position 1 1, Destroyable)" by (simp add: falls_def MOVE_def)
  have m: "map moved [(Position 0 2, Collectable)] = [(Position 0 1, Collectable)]"
    by (simp add: moved_def MOVE_def)
  have n: "\<not> game_over example_game" by (simp add: example_game_eq)
  let ?after = "example_game\<lparr>game_over := True,
                grid := (grid example_game)\<lparr>grid_entities :=
                  map moved [(Position 0 2, Collectable)]\<rparr>\<rparr>"
  from gravity_break_on_first_loss [OF d, of "[1, 0, 3, 0, 0]"]
  have "\<forall>pre p post.
            grid_entities (grid example_game) = pre @ (p, Destroyable) # post
            \<and> (\<forall>item \<in> set pre. \<not> falls item) \<and> falls (p, Destroyable) \<longrightarrow>
            gravity example_game = example_game\<lparr>game_over := True,
                grid := (grid example_game)\<lparr>grid_entities := map moved pre\<rparr>\<rparr>
            \<and> step [1, 0, 3, 0, 0] example_game = generate_entities [1, 0, 3, 0, 0]
                 (example_game\<lparr>game_over := True,
                    grid := (grid example_game)\<lparr>grid_entities := map moved pre\<rparr>\<rparr>)
            \<and> game_over (snd (step [1, 0, 3, 0, 0] example_game))
            \<and> (grid_ok example_game \<longrightarrow>
                  below_top (snd (step [1, 0, 3, 0, 0] example_game)) = map moved pre)"
    by (rule conjunct1)
  then have "gravity example_game = ?after
            \<and> game_over (snd (step [1, 0, 3, 0, 0] example_game))
            \<and> (grid_ok example_game \<longrightarrow>
                  below_top (snd (step [1, 0, 3, 0, 0] example_game))
                    = map moved [(Position 0 2, Collectable)])"
    using es s f by blast
  then show ?thesis
    using d es s f n example_game_ok example_losing_step unfolding m by simp
qed

section \<open>fire\<close>

text \<open>
  C7. Every call of \<^verbatim>\<open>fire\<close>, with any shot type and any contents of the grid
  (an empty player column included), leaves \<^verbatim>\<open>total_shots\<close> exactly one higher than
  before: the increment comes first and no branch of the scan writes the counter.
\<close>

theorem fire_total_shots:
  "total_shots (fire sp shot_type self) = total_shots self + 1"
  by (simp add: fire_def Let_def fire_loop_total_shots)

text \<open>
  C8. When the lowest occupied cell of the player's column holds a Collectable,
  \<^verbatim>\<open>fire(DESTROY)\<close> changes nothing but \<^verbatim>\<open>total_shots\<close>, which it increments: the
  counters \<^verbatim>\<open>num_destroyed\<close> and \<^verbatim>\<open>num_collected\<close> and the whole grid are as before
  (the two shot types being different strings). In the same way, when that cell holds
  a Destroyable, a shot of any type other than \<^verbatim>\<open>DESTROY\<close> changes nothing but
  \<^verbatim>\<open>total_shots\<close>.
\<close>

theorem fire_wrong_type_no_effect:
  "(DESTROY sp \<noteq> COLLECT sp \<and> lowest_occupied self y Collectable \<longrightarrow>
      fire sp (DESTROY sp) self = self\<lparr>total_shots := total_shots self + 1\<rparr>)
   \<and> (shot_type \<noteq> DESTROY sp \<and> lowest_occupied self y Destroyable \<longrightarrow>
      fire sp shot_type self = self\<lparr>total_shots := total_shots self + 1\<rparr>)"
proof (intro conjI impI)
  assume a: "DESTROY sp \<noteq> COLLECT sp \<and> lowest_occupied self y Collectable"
  then have "get_entity (grid self) (Position (get_x (player_position self)) y) = Some Collectable"
    by (simp add: lowest_occupied_def)
  with a show "fire sp (DESTROY sp) self = self\<lparr>total_shots := total_shots self + 1\<rparr>"
    using fire_at_lowest [of self y Collectable sp "DESTROY sp"] by (simp add: Let_def)
next
  assume a: "shot_type \<noteq> DESTROY sp \<and> lowest_occupied self y Destroyable"
  then have "get_entity (grid self) (Position (get_x (player_position self)) y) = Some Destroyable"
    by (simp add: lowest_occupied_def)
  with a show "fire sp shot_type self = self\<lparr>total_shots := total_shots self + 1\<rparr>"
    using fire_at_lowest [of self y Destroyable sp shot_type] by (simp add: Let_def)
qed

theorem fire_wrong_type_no_effect_witness:
  "DESTROY example_support \<noteq> COLLECT example_support
   \<and> lowest_occupied example_game 3 Collectable
   \<and> fire example_support ''DESTROY'' example_game = example_game\<lparr>total_shots := 1\<rparr>
   \<and> ''COLLECT'' \<noteq> DESTROY example_support
   \<and> lowest_occupied (snd (rotate_grid example_support ''RIGHT'' example_game)) 1 Destroyable
   \<and> fire example_support ''COLLECT'' (snd (rotate_grid example_support ''RIGHT'' example_game))
       = (snd (rotate_grid example_support ''RIGHT'' example_game))\<lparr>total_shots := 1\<rparr>"
proof -
  have a: "DESTROY example_support \<noteq> COLLECT example_support"
    and a': "''COLLECT'' \<noteq> DESTROY example_support"
    and ds: "DESTROY example_support = ''DESTROY''"
    by (simp_all add: example_support_def)
  have u: "[1 .. (2::int)] = [1, 2]" by (simp add: upto.simps)
  have b: "lowest_occupied example_game 3 Collectable"
    by (simp add: lowest_occupied_def example_game_eq get_entity_def u)
  have b': "lowest_occupied (snd (rotate_grid example_support ''RIGHT'' example_game)) 1 Destroyable"
    unfolding example_rotated_right
    by (simp add: lowest_occupied_def example_game_eq get_entity_def)
  have t: "total_shots example_game = 0"
    "total_shots (snd (rotate_grid example_support ''RIGHT'' example_game)) = 0"
    by (simp_all add: example_rotated_right) (simp_all add: example_game_eq)
  from fire_wrong_type_no_effect [where sp = example_support and self = example_game
      and y = 3]
  have 1: "fire example_support ''DESTROY'' example_game = example_game\<lparr>total_shots := 1\<rparr>"
    using a b by (simp add: ds t)
  from fire_wrong_type_no_effect [where sp = example_support and y = 1
      and shot_type = "''COLLECT''"
      and self = "snd (rotate_grid example_support ''RIGHT'' example_game)"]
  have 2: "fire example_support ''COLLECT'' (snd (rotate_grid example_support ''RIGHT'' example_game))
       = (snd (rotate_grid example_support ''RIGHT'' example_game))\<lparr>total_shots := 1\<rparr>"
    using a' b' by (simp add: t)
  from a a' b b' 1 2 show ?thesis by simp
qed

section \<open>Sessions\<close>

text \<open>
  C5. In every state of a session the three counters are non-negative and
  \<open>total_shots \<ge> num_collected + num_destroyed\<close>, and no call of \<^verbatim>\<open>rotate_grid\<close>,
  \<^verbatim>\<open>step\<close> or \<^verbatim>\<open>fire\<close> from such a state lowers a counter.
\<close>

theorem counters_invariant:
  assumes "reachable sp sz self"
  shows "0 \<le> num_collected self \<and> 0 \<le> num_destroyed self \<and> 0 \<le> total_shots self
       \<and> num_collected self + num_destroyed self \<le> total_shots self
       \<and> counters_le self (snd (rotate_grid sp direction self))
       \<and> counters_le self (snd (step gen self))
       \<and> counters_le self (fire sp shot_type self)"
proof -
  from reachable_counters [OF assms]
  have "0 \<le> num_collected self" "0 \<le> num_destroyed self"
    "num_collected self + num_destroyed self \<le> total_shots self" by simp_all
  moreover have "counters_le self (snd (rotate_grid sp direction self))"
    by (simp add: counters_le_def rotate_grid_counters)
  moreover have "counters_le self (snd (step gen self))"
    by (simp add: counters_le_def step_counters)
  moreover have "counters_le self (fire sp shot_type self)"
    using fire_counters [of sp shot_type self] by (simp add: counters_le_def)
  ultimately show ?thesis by simp
qed

theorem counters_invariant_witness:
  "reachable example_support 5 (fire example_support ''COLLECT'' (Game_init 5))
   \<and> total_shots (fire example_support ''COLLECT'' (Game_init 5)) = 1
   \<and> num_collected (fire example_support ''COLLECT'' (Game_init 5))
       + num_destroyed (fire example_support ''COLLECT'' (Game_init 5)) \<le> 1
   \<and> counters_le (fire example_support ''COLLECT'' (Game_init 5))
        (fire example_support ''DESTROY'' (fire example_support ''COLLECT'' (Game_init 5)))"
proof -
  have r: "reachable example_support 5 (fire example_support ''COLLECT'' (Game_init 5))"
    by (rule reachable.after_fire [OF reachable.fresh])
  have t: "total_shots (fire example_support ''COLLECT'' (Game_init 5)) = 1"
    using fire_counters [of example_support "''COLLECT''" "Game_init 5"]
    by (simp add: Game_init_def)
  from counters_invariant [OF r, of _ _ "''DESTROY''"] r t show ?thesis by simp
qed

text \<open>
  C10. In every state of a session, \<^verbatim>\<open>step\<close> never overwrites an entity when it
  spawns: after the gravity pass every key of the grid is below the top row
  \<open>size - 1\<close>; the drawn columns are pairwise distinct; and at the moment an entity is
  placed, after the entities before it in the list have been placed, its cell holds
  nothing.
\<close>

theorem spawn_never_overwrites:
  assumes "reachable sp sz self"
  shows "(\<forall>position \<in> set (map fst (grid_entities (grid (gravity self)))).
            get_y position < sz - 1)
       \<and> (case generate_draws (gravity self) gen of
            Inl e \<Rightarrow> step gen self = (Raises e, gravity self)
          | Inr (entity_index, entities) \<Rightarrow>
              step gen self = add_loop (zip entity_index entities) (gravity self)
              \<and> distinct entity_index
              \<and> (\<forall>pre pos kind post.
                    zip entity_index entities = pre @ (pos, kind) # post \<longrightarrow>
                    get_entity (grid (snd (add_loop pre (gravity self))))
                      (Position pos (sz - 1)) = None))"
proof -
  from reachable_ok [OF assms] have ok: "grid_ok self" and sz: "game_size self = sz" by simp_all
  from ok have gs: "grid_size (grid (gravity self)) = sz"
    by (simp add: gravity_fields grid_ok_def sz)
  have top: "\<forall>position \<in> set (map fst (grid_entities (grid (gravity self)))).
            get_y position < sz - 1"
    using gravity_keys [OF ok] sz by blast
  have "case generate_draws (gravity self) gen of
            Inl e \<Rightarrow> step gen self = (Raises e, gravity self)
          | Inr (entity_index, entities) \<Rightarrow>
              step gen self = add_loop (zip entity_index entities) (gravity self)
              \<and> distinct entity_index
              \<and> (\<forall>pre pos kind post.
                    zip entity_index entities = pre @ (pos, kind) # post \<longrightarrow>
                    get_entity (grid (snd (add_loop pre (gravity self))))
                      (Position pos (sz - 1)) = None)"
  proof (cases "generate_draws (gravity self) gen")
    case (Inl e)
    then show ?thesis by (simp add: step_unfold_raise)
  next
    case (Inr r)
    obtain entity_index entities where r: "r = (entity_index, entities)" by (cases r)
    from Inr r have draws: "generate_draws (gravity self) gen = Inr (entity_index, entities)"
      by simp
    from generate_draws_result [OF draws] have d: "distinct entity_index" by simp
    have empty: "get_entity (grid (snd (add_loop pre (gravity self)))) (Position pos (sz - 1)) = None"
      if split: "zip entity_index entities = pre @ (pos, kind) # post" for pre pos kind post
    proof -
      have "distinct (map fst (zip entity_index entities))"
        using d by (simp add: map_fst_zip_take)
      then have fresh: "pos \<notin> set (map fst pre)" by (simp add: split)
      have "Position pos (sz - 1) \<notin> set (map fst (grid_entities (grid (gravity self))))"
        using top by force
      moreover have "Position pos (sz - 1)
          \<notin> (\<lambda>x. Position x (grid_size (grid (gravity self)) - 1)) ` set (map fst pre)"
        using fresh by (auto simp: gs)
      ultimately have "Position pos (sz - 1)
          \<notin> set (map fst (grid_entities (grid (snd (add_loop pre (gravity self))))))"
        using add_loop_keys [of pre "gravity self"] by blast
      then show ?thesis by (simp add: get_entity_def map_of_eq_None_iff)
    qed
    show ?thesis
      using draws d empty by (auto simp: step_unfold_add)
  qed
  with top show ?thesis by simp
qed

theorem spawn_never_overwrites_witness:
  "reachable example_support 5 (snd (step [1, 0, 3, 0, 0] (Game_init 5)))
   \<and> generate_draws (gravity (snd (step [1, 0, 3, 0, 0] (Game_init 5)))) [1, 1, 3, 2, 0]
       = Inr ([2, 0], [''C'', ''B''])
   \<and> get_entity (grid (snd (add_loop [(2, ''C'')]
        (gravity (snd (step [1, 0, 3, 0, 0] (Game_init 5))))))) (Position 0 4) = None
   \<and> get_entity (grid (snd (add_loop [(2, ''C'')]
        (gravity (snd (step [1, 0, 3, 0, 0] (Game_init 5))))))) (Position 2 4) = Some Collectable"
proof -
  let ?s1 = "snd (step [1, 0, 3, 0, 0] (Game_init 5))"
  have r: "reachable example_support 5 ?s1"
    by (rule reachable.after_step [OF reachable.fresh])
  from spawn_never_overwrites [OF r, of "[1, 1, 3, 2, 0]"]
  have "\<forall>pre pos kind post.
          zip [2::int, 0] [''C'', ''B''] = pre @ (pos, kind) # post \<longrightarrow>
          get_entity (grid (snd (add_loop pre (gravity ?s1)))) (Position pos (5 - 1)) = None"
    unfolding example_second_draws by simp
  then have "zip [2::int, 0] [''C'', ''B''] = [(2, ''C'')] @ (0, ''B'') # [] \<longrightarrow>
          get_entity (grid (snd (add_loop [(2, ''C'')] (gravity ?s1)))) (Position 0 (5 - 1)) = None"
    by blast
  then have "get_entity (grid (snd (add_loop [(2, ''C'')] (gravity ?s1)))) (Position 0 4) = None"
    by simp
  with r example_second_draws example_second_placement show ?thesis by simp
qed

end
